theory Spec2Isabelle
  imports Main
begin

section \<open>Errors raised by the runtime and by the two components\<close>

text \<open>
  Every \<^verbatim>\<open>throw\<close> of the two source files and every runtime error their code
  paths can meet is a value of \<open>error\<close>:
  \<^item> \<open>Thrown kind message\<close>: an error raised by user code (a pipe, a constructor, a
    factory), with the name of its class and its message;
  \<^item> \<open>DoubleInvocation\<close>: \<^verbatim>\<open>new Error('Pipeline: next() called multiple times')\<close>
    (pipeline.ts, line 102);
  \<^item> \<open>MissingDependency name index owner\<close>:
    \<^verbatim>\<open>new Error(`Cannot resolve dependency: "${name}" at index ${index} in ${constructor.name}`)\<close>
    (container.ts, line 115);
  \<^item> \<open>NotAConstructor\<close>: the TypeError of \<^verbatim>\<open>new x()\<close> when \<open>x\<close> is not
    constructible (a string, a symbol, \<^verbatim>\<open>undefined\<close>, an arrow or async function);
  \<^item> \<open>NotAFunction\<close>: the TypeError of calling a value that is not callable;
  \<^item> \<open>ClassInvokedWithoutNew name\<close>: the TypeError of calling a \<^verbatim>\<open>class\<close> as a
    plain function (``Class constructor \<open>name\<close> cannot be invoked without 'new'''; the
    build target is es2021, so classes stay native classes).
\<close>

datatype error =
    Thrown string string
  | DoubleInvocation
  | MissingDependency string nat string
  | NotAConstructor
  | NotAFunction
  | ClassInvokedWithoutNew string

text \<open>The name of the error's class, as \<^verbatim>\<open>e.constructor.name\<close> reads it.\<close>

fun kind :: "error \<Rightarrow> string" where
  "kind (Thrown k m) = k"
| "kind DoubleInvocation = ''Error''"
| "kind (MissingDependency n i owner) = ''Error''"
| "kind NotAConstructor = ''TypeError''"
| "kind NotAFunction = ''TypeError''"
| "kind (ClassInvokedWithoutNew n) = ''TypeError''"

section \<open>The execution pipeline (src/foundation/pipeline.ts)\<close>

subsection \<open>Pipes\<close>

text \<open>
  A pipe receives the payload and the continuation \<^verbatim>\<open>next\<close>. What its body does
  with them is an \<open>activation\<close>: it returns a value without forwarding, raises an
  error, or calls \<^verbatim>\<open>next\<close> with a payload, awaits the outcome (a value or a rejection,
  which it may catch) and goes on. A pipe may call \<^verbatim>\<open>next\<close> any number of times. Each
  call is awaited before the body continues, as in the repository's tests: one
  activation runs at a time.
\<close>

datatype 'v activation =
    Return 'v
  | Throw error
  | CallNext 'v "error + 'v \<Rightarrow> 'v activation"

text \<open>
  \<^verbatim>\<open>type Pipe<T> = PipeHandler<T> | (new () => PipeClass<T>)\<close>. A \<open>PipeHandler\<close> is
  an arrow or async function, which is not constructible; a \<open>PipeClass\<close> is a class
  with a constructor that takes no argument and does not raise, given with its name
  and the body of its \<^verbatim>\<open>handle\<close> method. (A handler declared with
  \<^verbatim>\<open>function\<close> is constructible: \<^verbatim>\<open>new\<close> runs its body once without arguments,
  the attempt fails for want of a \<^verbatim>\<open>next\<close> or of a \<^verbatim>\<open>handle\<close>, and the
  \<^verbatim>\<open>catch\<close> block calls it; for a body with no effect but its calls of
  \<^verbatim>\<open>next\<close> the outcome is that of a \<open>PipeHandler\<close>.)
\<close>

datatype 'v pipe =
    PipeHandler "'v \<Rightarrow> 'v activation"
  | PipeClass string "'v \<Rightarrow> 'v activation"

text \<open>
  Running a pipe's body against a continuation. The state that is threaded through
  is \<^verbatim>\<open>index\<close>, the local variable of \<^verbatim>\<open>thenReturn\<close> that its closure
  \<^verbatim>\<open>dispatch\<close> updates.
\<close>

primrec run :: "('v \<Rightarrow> int \<Rightarrow> (error + 'v) \<times> int) \<Rightarrow> 'v activation \<Rightarrow> int \<Rightarrow> (error + 'v) \<times> int" where
  "run next (Return v) index = (Inr v, index)"
| "run next (Throw e) index = (Inl e, index)"
| "run next (CallNext v k) index = (case next v index of (r, index') \<Rightarrow> run next (k r) index')"

lemma run_cong [fundef_cong]:
  "a = a' \<Longrightarrow> index = index' \<Longrightarrow> (\<And>v j. next v j = next' v j) \<Longrightarrow> run next a index = run next' a' index'"
proof -
  assume "a = a'" "index = index'" and n: "\<And>v j. next v j = next' v j"
  have "next = next'" using n by (intro ext)
  then show ?thesis using \<open>a = a'\<close> \<open>index = index'\<close> by simp
qed

subsection \<open>dispatch and thenReturn\<close>

text \<open>
  \<^verbatim>\<open>dispatch\<close> (lines 100 to 120). The \<^verbatim>\<open>try\<close> block holds both the construction
  and the awaited \<^verbatim>\<open>handle\<close> call; the \<^verbatim>\<open>catch\<close> block calls the pipe as a
  function:
  \<^item> for a \<open>PipeClass\<close>, \<^verbatim>\<open>new pipe()\<close> succeeds and \<^verbatim>\<open>handle\<close> runs; when it
    rejects, the \<^verbatim>\<open>catch\<close> block calls the class without \<^verbatim>\<open>new\<close>, which raises
    \<open>ClassInvokedWithoutNew\<close>;
  \<^item> for a \<open>PipeHandler\<close>, \<^verbatim>\<open>new pipe()\<close> raises \<open>NotAConstructor\<close>, and the
    \<^verbatim>\<open>catch\<close> block calls the function;
  \<^item> out of range, \<^verbatim>\<open>this.pipes[i]\<close> is \<^verbatim>\<open>undefined\<close>: both attempts fail and
    the second one's TypeError is what leaves \<^verbatim>\<open>dispatch\<close>.
\<close>

function dispatch :: "'v pipe list \<Rightarrow> int \<Rightarrow> 'v \<Rightarrow> int \<Rightarrow> (error + 'v) \<times> int" where
  "dispatch pipes i val index =
     (if i \<le> index then (Inl DoubleInvocation, index)
      else if i = int (length pipes) then (Inr val, i)
      else if 0 \<le> i \<and> i < int (length pipes) then
        (case pipes ! nat i of
           PipeClass name handle \<Rightarrow>
             (case run (dispatch pipes (i + 1)) (handle val) i of
                (Inr r, index') \<Rightarrow> (Inr r, index')
              | (Inl e, index') \<Rightarrow> (Inl (ClassInvokedWithoutNew name), index'))
         | PipeHandler f \<Rightarrow> run (dispatch pipes (i + 1)) (f val) i)
      else (Inl NotAFunction, i))"
  by pat_completeness auto
termination
  by (relation "measure (\<lambda>(pipes, i, val, index). nat (int (length pipes) - i))") auto

declare dispatch.simps [simp del]

text \<open>
  \<^verbatim>\<open>thenReturn\<close>: \<^verbatim>\<open>let index = -1; ... return dispatch(0, this.payload)\<close>. Its
  arguments are the fields \<^verbatim>\<open>this.pipes\<close> and \<^verbatim>\<open>this.payload\<close>, which \<^verbatim>\<open>through\<close>
  and \<^verbatim>\<open>send\<close> have set: \<open>thenReturn pipes v\<close> is
  \<^verbatim>\<open>send(v).through(pipes).thenReturn()\<close>. Each call starts from a new \<^verbatim>\<open>index\<close>.
\<close>

definition thenReturn :: "'v pipe list \<Rightarrow> 'v \<Rightarrow> error + 'v" where
  "thenReturn pipes payload = fst (dispatch pipes 0 payload (- 1))"

subsection \<open>Pipe bodies used below\<close>

text \<open>
  \<^verbatim>\<open>const r = await next(v); ...\<close> with the rejection of \<^verbatim>\<open>next\<close> left uncaught:
  the body goes on with the value, or rejects with the same error.
\<close>

definition await_next :: "'v \<Rightarrow> ('v \<Rightarrow> 'v activation) \<Rightarrow> 'v activation" where
  "await_next v k = CallNext v (\<lambda>r. case r of Inl e \<Rightarrow> Throw e | Inr x \<Rightarrow> k x)"

text \<open>\<^verbatim>\<open>async (v, next) => next(f(v))\<close>: transform and forward.\<close>

definition forward :: "('v \<Rightarrow> 'v) \<Rightarrow> 'v \<Rightarrow> 'v activation" where
  "forward f v = await_next (f v) Return"

text \<open>
  The body of the test suite's \<^verbatim>\<open>badPipe\<close>:
  \<^verbatim>\<open>await next(payload + 'a'); return next(payload + 'b');\<close>
\<close>

definition badPipe :: "string \<Rightarrow> string activation" where
  "badPipe payload = await_next (payload @ ''a'') (\<lambda>_. await_next (payload @ ''b'') Return)"

text \<open>A body that raises: \<^verbatim>\<open>throw new Error('boom')\<close>.\<close>

definition boom :: "int \<Rightarrow> int activation" where
  "boom v = Throw (Thrown ''Error'' ''boom'')"

text \<open>The same body as a function-shaped or as a class-shaped pipe.\<close>

datatype shape = AsFunction | AsClass string

fun as_pipe :: "shape \<Rightarrow> ('v \<Rightarrow> 'v activation) \<Rightarrow> 'v pipe" where
  "as_pipe AsFunction body = PipeHandler body"
| "as_pipe (AsClass name) body = PipeClass name body"

text \<open>
  The two ways of a pipe that the pipeline's contract names: transform the payload,
  forward it and work on what comes back
  (\<^verbatim>\<open>async (v, next) => after(await next(before(v)))\<close>), or end the chain with a value
  of its own without forwarding (\<^verbatim>\<open>async (v, next) => result(v)\<close>).
\<close>

datatype 'v stage = Forward "'v \<Rightarrow> 'v" "'v \<Rightarrow> 'v" | Finish "'v \<Rightarrow> 'v"

fun body :: "'v stage \<Rightarrow> 'v \<Rightarrow> 'v activation" where
  "body (Forward before after) v = await_next (before v) (\<lambda>r. Return (after r))"
| "body (Finish result) v = Return (result v)"

text \<open>What a list of stages computes, read in declared order.\<close>

fun chain :: "'v stage list \<Rightarrow> 'v \<Rightarrow> 'v" where
  "chain [] v = v"
| "chain (Forward before after # stages) v = after (chain stages (before v))"
| "chain (Finish result # stages) v = result v"

section \<open>The resolution container (src/foundation/container.ts)\<close>

subsection \<open>Values, classes, factories and identifiers\<close>

text \<open>
  The values that flow through the container: \<^verbatim>\<open>undefined\<close>, strings, numbers,
  references to objects of the store (compared by address, as \<^verbatim>\<open>===\<close> does) and
  the members that every object inherits from \<^verbatim>\<open>Object.prototype\<close>.
\<close>

datatype val = VUndefined | VStr string | VNum int | VRef nat | VBuiltin string

text \<open>
  A class is given by what the container reads of it: an identity (two classes with
  the same text are different keys), its \<^verbatim>\<open>name\<close>, the source text that
  \<^verbatim>\<open>toString()\<close> returns, and whether its constructor raises. A constructor that
  does not raise stores its arguments in the new object, as the parameter properties
  of the test suite's classes do.
\<close>

datatype class_decl = ClassDecl (cid: nat) (cname: string) (csrc: string) (cthrows: "error option")

text \<open>
  \<^verbatim>\<open>type Abstract<T> = string | symbol | (new (...args: any[]) => T) | (() => T)\<close>.
  A symbol has an identity and a description. A factory \<^verbatim>\<open>() => T\<close> is an arrow
  function that takes no argument. Its body returns a value that exists already,
  returns a new object, or raises; or it calls back into the container, which it
  holds in a variable of its scope:
  \<^item> \<open>Makes x\<close> is \<^verbatim>\<open>() => container.make(x)\<close>;
  \<^item> \<open>MakesNew cls xs\<close> is
    \<^verbatim>\<open>() => new cls(container.make(x1), ..., container.make(xk))\<close>.

  The identifiers that a closure passes to \<^verbatim>\<open>make\<close> are identifiers of any kind,
  so the three types are defined together.
\<close>

datatype fn_body = Returns val | ReturnsNew string | Throws error | Makes ident | MakesNew string "ident list"
  and fn_decl = FnDecl (fid: nat) (fname: string) (fbody: fn_body)
  and ident = IString string | ISymbol nat string | IClass class_decl | IFunction fn_decl

text \<open>\<^verbatim>\<open>type Concrete<T> = { value: ...; shared?: boolean }\<close>.\<close>

record concrete =
  conc_value :: ident
  conc_shared :: bool

text \<open>An object of the store: the name of its class and its constructor arguments.\<close>

record obj =
  obj_class :: string
  obj_args :: "val list"

text \<open>
  The fields of \<^verbatim>\<open>Container\<close>, and the object store \<open>heap\<close> of the runtime, in which
  \<^verbatim>\<open>new\<close> allocates: the address of a new object is the length of the store.
\<close>

record container =
  resolved :: "ident set"
  bindings :: "ident \<rightharpoonup> concrete"
  instances :: "ident \<rightharpoonup> val"
  buildStack :: "ident list"
  heap :: "obj list"

definition new_container :: container where
  "new_container = \<lparr>resolved = {}, bindings = Map.empty, instances = Map.empty, buildStack = [], heap = []\<rparr>"

text \<open>
  \<^verbatim>\<open>Record<string, any>\<close>, read by \<^verbatim>\<open>parameters[name]\<close>: a property read, which
  yields \<^verbatim>\<open>undefined\<close> for a missing key. The default \<^verbatim>\<open>{}\<close> has no own key and
  inherits the members of \<^verbatim>\<open>Object.prototype\<close>.
\<close>

type_synonym overrides = "string \<Rightarrow> val"

definition object_prototype_keys :: "string list" where
  "object_prototype_keys =
     [''constructor'', ''__defineGetter__'', ''__defineSetter__'', ''hasOwnProperty'',
      ''__lookupGetter__'', ''__lookupSetter__'', ''isPrototypeOf'', ''propertyIsEnumerable'',
      ''toString'', ''valueOf'', ''__proto__'', ''toLocaleString'']"

definition empty_record :: overrides where
  "empty_record name = (if name \<in> set object_prototype_keys then VBuiltin name else VUndefined)"

subsection \<open>Registration\<close>

text \<open>\<^verbatim>\<open>bind\<close>, lines 69 to 74, and \<^verbatim>\<open>singleton\<close>, lines 156 to 158.\<close>

definition bind :: "container \<Rightarrow> ident \<Rightarrow> ident \<Rightarrow> bool \<Rightarrow> container" where
  "bind c abstract concrete shared =
     c\<lparr>bindings := (bindings c)(abstract \<mapsto> \<lparr>conc_value = concrete, conc_shared = shared\<rparr>)\<rparr>"

definition singleton :: "container \<Rightarrow> ident \<Rightarrow> ident \<Rightarrow> container" where
  "singleton c abstract concrete = bind c abstract concrete True"

text \<open>\<^verbatim>\<open>instance(abstract, instance)\<close>, lines 167 to 170; the source's name is a keyword here.\<close>

definition instance_reg :: "container \<Rightarrow> ident \<Rightarrow> val \<Rightarrow> container" where
  "instance_reg c abstract inst =
     c\<lparr>instances := (instances c)(abstract \<mapsto> inst), resolved := insert abstract (resolved c)\<rparr>"

subsection \<open>Queries\<close>

definition getConcrete :: "container \<Rightarrow> ident \<Rightarrow> ident" where
  "getConcrete c abstract = (case bindings c abstract of Some binding \<Rightarrow> conc_value binding | None \<Rightarrow> abstract)"

definition isShared :: "container \<Rightarrow> ident \<Rightarrow> bool" where
  "isShared c abstract = (case bindings c abstract of Some binding \<Rightarrow> conc_shared binding | None \<Rightarrow> False)"

text \<open>\<^verbatim>\<open>typeof x === 'function'\<close>.\<close>

fun is_function :: "ident \<Rightarrow> bool" where
  "is_function (IClass k) = True"
| "is_function (IFunction f) = True"
| "is_function _ = False"

definition isBuildable :: "ident \<Rightarrow> ident \<Rightarrow> bool" where
  "isBuildable concrete abstract = (concrete = abstract \<or> is_function concrete)"

definition has :: "container \<Rightarrow> ident \<Rightarrow> bool" where
  "has c abstract = (bindings c abstract \<noteq> None \<or> instances c abstract \<noteq> None)"

subsection \<open>Reading a constructor's text\<close>

text \<open>
  Source texts are ASCII. \<open>is_space\<close> is the class \<^verbatim>\<open>\s\<close> on ASCII: tab, line feed,
  vertical tab, form feed, carriage return, space.
\<close>

definition is_space :: "char \<Rightarrow> bool" where
  "is_space ch = (ch \<in> {CHR 0x09, CHR 0x0A, CHR 0x0B, CHR 0x0C, CHR 0x0D, CHR 0x20})"

text \<open>
  \<^verbatim>\<open>x.toString()\<close>: a string is its own text, a symbol prints as
  \<^verbatim>\<open>Symbol(description)\<close>, a class prints its source. \<^verbatim>\<open>x.name\<close> is the name of a
  class or function and \<^verbatim>\<open>undefined\<close> on a string or a symbol, which the template
  of the error message prints as the word.
\<close>

fun toString :: "ident \<Rightarrow> string" where
  "toString (IString s) = s"
| "toString (ISymbol i d) = ''Symbol('' @ d @ '')''"
| "toString (IClass k) = csrc k"
| "toString (IFunction f) = ''() => {}''"

fun name_of :: "ident \<Rightarrow> string" where
  "name_of (IClass k) = cname k"
| "name_of (IFunction f) = fname f"
| "name_of _ = ''undefined''"

text \<open>
  \<^verbatim>\<open>isClass\<close>: \<^verbatim>\<open>typeof fn === 'function' && /^class\s/.test(text)\<close>. The text of a
  plain function never starts with the keyword \<^verbatim>\<open>class\<close>.
\<close>

fun isClass :: "ident \<Rightarrow> bool" where
  "isClass (IClass k) = (take 5 (csrc k) = ''class'' \<and> (case drop 5 (csrc k) of [] \<Rightarrow> False | ch # _ \<Rightarrow> is_space ch))"
| "isClass _ = False"

text \<open>The text that follows the first occurrence of a word, if there is one.\<close>

fun after_first :: "string \<Rightarrow> string \<Rightarrow> string option" where
  "after_first word [] = (if word = [] then Some [] else None)"
| "after_first word (ch # rest) =
     (if take (length word) (ch # rest) = word then Some (drop (length word) (ch # rest))
      else after_first word rest)"

text \<open>\<^verbatim>\<open>s.split(',')\<close>: the pieces between the commas, empty pieces included.\<close>

fun split_commas :: "string \<Rightarrow> string list" where
  "split_commas [] = [[]]"
| "split_commas (ch # rest) =
     (case split_commas rest of
        piece # pieces \<Rightarrow> if ch = CHR '','' then [] # piece # pieces else (ch # piece) # pieces
      | [] \<Rightarrow> [[ch]])"

text \<open>
  \<^verbatim>\<open>getParamNames\<close> (lines 83 to 90):
  \<^verbatim>\<open>fnStr.match(/constructor\s*[^\(]*\(\s*([^\)]*)\)/)\<close>, then
  \<^verbatim>\<open>argsMatch[1].split(',').filter(Boolean)\<close>. The pattern matches at the first
  occurrence of the word \<^verbatim>\<open>constructor\<close> or nowhere: it runs to the first opening
  parenthesis after the word, skips white space, and captures up to the first closing
  parenthesis, which must exist; a later occurrence of the word would need the same
  closing parenthesis. The pieces are not trimmed.
\<close>

definition getParamNames :: "string \<Rightarrow> string list" where
  "getParamNames fnStr =
     (case after_first ''constructor'' fnStr of
        None \<Rightarrow> []
      | Some rest \<Rightarrow>
          (case dropWhile (\<lambda>ch. ch \<noteq> CHR ''('') rest of
             [] \<Rightarrow> []
           | paren # args \<Rightarrow>
               let args' = dropWhile is_space args in
               if CHR '')'' \<in> set args'
               then filter (\<lambda>piece. piece \<noteq> []) (split_commas (takeWhile (\<lambda>ch. ch \<noteq> CHR '')'') args'))
               else []))"

subsection \<open>build and make\<close>

text \<open>\<^verbatim>\<open>new\<close> allocates at the end of the store.\<close>

definition alloc :: "container \<Rightarrow> string \<Rightarrow> val list \<Rightarrow> (error + val) \<times> container" where
  "alloc c name args =
     (Inr (VRef (length (heap c))), c\<lparr>heap := heap c @ [\<lparr>obj_class = name, obj_args = args\<rparr>]\<rparr>)"

text \<open>\<^verbatim>\<open>new constructor(...dependencies)\<close>, line 118.\<close>

fun construct :: "container \<Rightarrow> ident \<Rightarrow> val list \<Rightarrow> (error + val) \<times> container" where
  "construct c (IClass k) deps =
     (case cthrows k of Some e \<Rightarrow> (Inl e, c) | None \<Rightarrow> alloc c (cname k) deps)"
| "construct c _ deps = (Inl NotAConstructor, c)"

text \<open>
  The recursion of \<^verbatim>\<open>make\<close> through \<^verbatim>\<open>build\<close> is not bounded by the code (the
  field \<^verbatim>\<open>buildStack\<close> is never written), so \<open>make\<close> takes fuel: the depth of nested
  \<^verbatim>\<open>make\<close> calls it may open. \<open>None\<close> says that the fuel did not suffice; a call
  that returns \<open>None\<close> for every fuel does not return in the program (the runtime
  ends it with a stack overflow). A result \<open>Some (r, c')\<close> holds the returned value
  or the raised error and the state the call left behind.
\<close>

type_synonym 'a outcome = "((error + 'a) \<times> container) option"

text \<open>
  The callback of \<^verbatim>\<open>paramNames.map\<close>, lines 107 to 116; \<open>mk\<close> stands for
  \<^verbatim>\<open>this.make\<close>, which the callback calls without overrides.
\<close>

definition dependency ::
  "(container \<Rightarrow> ident \<Rightarrow> overrides \<Rightarrow> val outcome) \<Rightarrow> container \<Rightarrow> overrides \<Rightarrow> string \<Rightarrow> string \<Rightarrow> nat \<Rightarrow> val outcome" where
  "dependency mk c parameters owner name index =
     (if parameters name \<noteq> VUndefined then Some (Inr (parameters name), c)
      else if has c (IString name) then mk c (IString name) empty_record
      else Some (Inl (MissingDependency name index owner), c))"

text \<open>\<^verbatim>\<open>paramNames.map(...)\<close>: the callback on each name in order, from \<open>index\<close> on.\<close>

fun dependencies ::
  "(container \<Rightarrow> ident \<Rightarrow> overrides \<Rightarrow> val outcome) \<Rightarrow> container \<Rightarrow> overrides \<Rightarrow> string \<Rightarrow> string list \<Rightarrow> nat \<Rightarrow> (val list) outcome" where
  "dependencies mk c parameters owner [] index = Some (Inr [], c)"
| "dependencies mk c parameters owner (name # names) index =
     (case dependency mk c parameters owner name index of
        None \<Rightarrow> None
      | Some (Inl e, c') \<Rightarrow> Some (Inl e, c')
      | Some (Inr d, c') \<Rightarrow>
          (case dependencies mk c' parameters owner names (Suc index) of
             None \<Rightarrow> None
           | Some (Inl e, c'') \<Rightarrow> Some (Inl e, c'')
           | Some (Inr ds, c'') \<Rightarrow> Some (Inr (d # ds), c'')))"

text \<open>
  The calls \<^verbatim>\<open>container.make(x)\<close> of a closure, in order; \<open>mk\<close> stands for
  \<^verbatim>\<open>make\<close> of the container that the closure holds. The first call that raises ends
  the closure.
\<close>

fun make_all ::
  "(container \<Rightarrow> ident \<Rightarrow> overrides \<Rightarrow> val outcome) \<Rightarrow> container \<Rightarrow> ident list \<Rightarrow> (val list) outcome" where
  "make_all mk c [] = Some (Inr [], c)"
| "make_all mk c (x # xs) =
     (case mk c x empty_record of
        None \<Rightarrow> None
      | Some (Inl e, c') \<Rightarrow> Some (Inl e, c')
      | Some (Inr v, c') \<Rightarrow>
          (case make_all mk c' xs of
             None \<Rightarrow> None
           | Some (Inl e, c'') \<Rightarrow> Some (Inl e, c'')
           | Some (Inr vs, c'') \<Rightarrow> Some (Inr (v # vs), c'')))"

text \<open>
  \<^verbatim>\<open>(concrete as () => T)()\<close>, line 103. The branch is taken for every function that
  \<^verbatim>\<open>isClass\<close> rejects, so also for a class whose text does not start with
  \<^verbatim>\<open>class\<close> and white space (\<^verbatim>\<open>class{}\<close>); calling a class raises. A closure
  that calls \<^verbatim>\<open>make\<close> opens nested calls, which may not return.
\<close>

fun invoke ::
  "(container \<Rightarrow> ident \<Rightarrow> overrides \<Rightarrow> val outcome) \<Rightarrow> container \<Rightarrow> ident \<Rightarrow> val outcome" where
  "invoke mk c (IFunction f) =
     (case fbody f of
        Returns v \<Rightarrow> Some (Inr v, c)
      | ReturnsNew name \<Rightarrow> Some (alloc c name [])
      | Throws e \<Rightarrow> Some (Inl e, c)
      | Makes x \<Rightarrow> mk c x empty_record
      | MakesNew name xs \<Rightarrow>
          (case make_all mk c xs of
             None \<Rightarrow> None
           | Some (Inl e, c') \<Rightarrow> Some (Inl e, c')
           | Some (Inr args, c') \<Rightarrow> Some (alloc c' name args)))"
| "invoke mk c (IClass k) = Some (Inl (ClassInvokedWithoutNew (cname k)), c)"
| "invoke mk c _ = Some (Inl NotAFunction, c)"

definition build ::
  "(container \<Rightarrow> ident \<Rightarrow> overrides \<Rightarrow> val outcome) \<Rightarrow> container \<Rightarrow> ident \<Rightarrow> overrides \<Rightarrow> val outcome" where
  "build mk c concrete parameters =
     (if is_function concrete \<and> \<not> isClass concrete then invoke mk c concrete
      else
        (case dependencies mk c parameters (name_of concrete) (getParamNames (toString concrete)) 0 of
           None \<Rightarrow> None
         | Some (Inl e, c') \<Rightarrow> Some (Inl e, c')
         | Some (Inr deps, c') \<Rightarrow> Some (construct c' concrete deps)))"

text \<open>\<^verbatim>\<open>make\<close>, lines 140 to 147.\<close>

fun make :: "nat \<Rightarrow> container \<Rightarrow> ident \<Rightarrow> overrides \<Rightarrow> val outcome" where
  "make 0 c abstract parameters = None"
| "make (Suc fuel) c abstract parameters =
     (case instances c abstract of
        Some inst \<Rightarrow> Some (Inr inst, c)
      | None \<Rightarrow>
          let concrete = getConcrete c abstract in
          (case (if isBuildable concrete abstract
                 then build (make fuel) c concrete parameters
                 else make fuel c concrete empty_record) of
             None \<Rightarrow> None
           | Some (Inl e, c') \<Rightarrow> Some (Inl e, c')
           | Some (Inr object, c') \<Rightarrow>
               let c'' = (if isShared c' abstract
                          then c'\<lparr>instances := (instances c')(abstract \<mapsto> object)\<rparr> else c')
               in Some (Inr object, c''\<lparr>resolved := insert abstract (resolved c'')\<rparr>)))"

subsection \<open>Auxiliary notions for the proofs\<close>

text \<open>
  What any code path of the container may change between two states: the bindings and
  \<^verbatim>\<open>buildStack\<close> stay, the resolved set and the store grow, and a cache entry that
  differs was absent before and belongs to an identifier bound shared.
\<close>

definition frame :: "container \<Rightarrow> container \<Rightarrow> bool" where
  "frame c c' \<longleftrightarrow>
     bindings c' = bindings c \<and> buildStack c' = buildStack c \<and> resolved c \<subseteq> resolved c'
     \<and> length (heap c) \<le> length (heap c')
     \<and> (\<forall>k. instances c' k \<noteq> instances c k \<longrightarrow> instances c k = None \<and> isShared c k)"

text \<open>A callback \<open>mk\<close> whose calls leave a \<open>frame\<close>.\<close>

definition calls_frame :: "(container \<Rightarrow> ident \<Rightarrow> overrides \<Rightarrow> val outcome) \<Rightarrow> bool" where
  "calls_frame mk \<longleftrightarrow> (\<forall>c a p r c'. mk c a p = Some (r, c') \<longrightarrow> frame c c')"

text \<open>
  The two parts of \<^verbatim>\<open>make\<close> after the cache lookup, named for the proofs: line 143
  (\<open>inner\<close>) and lines 144 to 145 (\<open>store\<close>).
\<close>

definition inner :: "nat \<Rightarrow> container \<Rightarrow> ident \<Rightarrow> overrides \<Rightarrow> val outcome" where
  "inner n c a p =
     (if isBuildable (getConcrete c a) a then build (make n) c (getConcrete c a) p
      else make n c (getConcrete c a) empty_record)"

definition store :: "container \<Rightarrow> ident \<Rightarrow> val \<Rightarrow> container" where
  "store c a object =
     (if isShared c a then c\<lparr>instances := (instances c)(a \<mapsto> object)\<rparr> else c)
       \<lparr>resolved := insert a (resolved c)\<rparr>"

text \<open>The identifiers that a factory passes to \<^verbatim>\<open>make\<close>.\<close>

fun closure_idents :: "ident \<Rightarrow> ident list" where
  "closure_idents (IFunction f) =
     (case fbody f of Makes x \<Rightarrow> [x] | MakesNew name xs \<Rightarrow> xs | _ \<Rightarrow> [])"
| "closure_idents _ = []"

text \<open>
  The identifiers that resolving \<open>abstract\<close> may pass to a nested \<^verbatim>\<open>make\<close>: the bound
  alias when the producer is not buildable (line 143); for a producer that
  \<^verbatim>\<open>build\<close> calls (line 103), the identifiers that the closure passes to \<^verbatim>\<open>make\<close>; and, for
  a producer that \<^verbatim>\<open>build\<close> constructs, the names of its constructor parameters that
  the container has (lines 111 to 112).
\<close>

definition edges :: "container \<Rightarrow> ident \<Rightarrow> ident list" where
  "edges c abstract =
     (let concrete = getConcrete c abstract in
      if isBuildable concrete abstract then
        (if is_function concrete \<and> \<not> isClass concrete then closure_idents concrete
         else map IString (filter (\<lambda>name. has c (IString name)) (getParamNames (toString concrete))))
      else [concrete])"

text \<open>The dependency graph of a state: \<open>(b, a)\<close> when resolving \<open>a\<close> may resolve \<open>b\<close>.\<close>

definition dep_rel :: "container \<Rightarrow> (ident \<times> ident) set" where
  "dep_rel c = {(b, a). b \<in> set (edges c a)}"

text \<open>
  The relation that links an identifier to its bound alias and to the identifiers
  equal to the constructor parameter names of its producer, whether or not the
  container has the name, and to nothing else.
\<close>

definition all_edges :: "container \<Rightarrow> ident \<Rightarrow> ident list" where
  "all_edges c abstract =
     (let concrete = getConcrete c abstract in
      (if isBuildable concrete abstract then [] else [concrete])
      @ (if is_function concrete \<and> \<not> isClass concrete then []
         else map IString (getParamNames (toString concrete))))"

definition alias_param_rel :: "container \<Rightarrow> (ident \<times> ident) set" where
  "alias_param_rel c = {(b, a). b \<in> set (all_edges c a)}"

text \<open>A callback that returns whatever another one returns.\<close>

definition fuel_mono ::
  "(container \<Rightarrow> ident \<Rightarrow> overrides \<Rightarrow> val outcome) \<Rightarrow> (container \<Rightarrow> ident \<Rightarrow> overrides \<Rightarrow> val outcome) \<Rightarrow> bool" where
  "fuel_mono mk mk' \<longleftrightarrow> (\<forall>c a p x. mk c a p = Some x \<longrightarrow> mk' c a p = Some x)"

subsection \<open>Notions for the claims on the cache\<close>






text \<open>
  An identifier for which \<^verbatim>\<open>make\<close> yields a new object at every call: it has no
  cached instance and is not bound shared, and its producer is a class, which
  \<^verbatim>\<open>build\<close> constructs with \<^verbatim>\<open>new\<close>, or a factory that creates an object, or an
  alias of, or a factory that forwards to, an identifier of this kind. The number
  bounds the length of the chain of aliases and forwarding factories.
\<close>

fun transient :: "nat \<Rightarrow> container \<Rightarrow> ident \<Rightarrow> bool" where
  "transient 0 c a = False"
| "transient (Suc k) c a =
     (instances c a = None \<and> \<not> isShared c a \<and>
      (let concrete = getConcrete c a in
       if isBuildable concrete a then
         (case concrete of
            IClass cl \<Rightarrow> True
          | IFunction f \<Rightarrow>
              (case fbody f of
                 ReturnsNew name \<Rightarrow> True
               | MakesNew name names \<Rightarrow> True
               | Makes x \<Rightarrow> transient k c x
               | _ \<Rightarrow> False)
          | _ \<Rightarrow> False)
       else transient k c concrete))"

text \<open>
  The public operations of the container, and a sequence of them run in order. A
  \<^verbatim>\<open>make\<close> in the sequence may return or throw; either way the state it leaves is
  the one the next operation sees.
\<close>

datatype op = Bind ident ident bool | Singleton ident ident | Instance ident val | Make ident overrides

fun apply_op :: "nat \<Rightarrow> container \<Rightarrow> op \<Rightarrow> container option" where
  "apply_op fuel c (Bind abstract concrete shared) = Some (bind c abstract concrete shared)"
| "apply_op fuel c (Singleton abstract concrete) = Some (singleton c abstract concrete)"
| "apply_op fuel c (Instance abstract inst) = Some (instance_reg c abstract inst)"
| "apply_op fuel c (Make abstract parameters) = map_option snd (make fuel c abstract parameters)"

fun run_ops :: "nat \<Rightarrow> container \<Rightarrow> op list \<Rightarrow> container option" where
  "run_ops fuel c [] = Some c"
| "run_ops fuel c (x # xs) = (case apply_op fuel c x of None \<Rightarrow> None | Some c' \<Rightarrow> run_ops fuel c' xs)"

subsection \<open>Example classes and containers\<close>

text \<open>
  The classes of the test suite, and one with two parameters, as the build emits
  them: parameter properties become plain parameters, and a comma is followed by a
  space.
\<close>

definition Foo :: class_decl where
  "Foo = ClassDecl 1 ''Foo'' ''class Foo { }'' None"

definition Bar :: class_decl where
  "Bar = ClassDecl 2 ''Bar'' ''class Bar { }'' None"

definition Baz :: class_decl where
  "Baz = ClassDecl 3 ''Baz'' ''class Baz { constructor(bar){ this.bar = bar; } }'' None"

definition Two :: class_decl where
  "Two = ClassDecl 4 ''Two'' ''class Two { constructor(a, b){ this.a = a; this.b = b; } }'' None"

text \<open>\<^verbatim>\<open>bind('bar', Bar); bind(Baz, Baz)\<close>, as in the second test.\<close>

definition baz_container :: container where
  "baz_container = bind (bind new_container (IString ''bar'') (IClass Bar) False) (IClass Baz) (IClass Baz) False"

text \<open>\<^verbatim>\<open>bind('bar', Baz)\<close>: the parameter of \<^verbatim>\<open>Baz\<close> resolves to \<^verbatim>\<open>Baz\<close> again.\<close>

definition cyclic_container :: container where
  "cyclic_container = bind new_container (IString ''bar'') (IClass Baz) False"

text \<open>
  \<^verbatim>\<open>bind('a', Foo); bind('b', Bar); bind(Two, Two)\<close>: both parameters of
  \<^verbatim>\<open>Two\<close> are bound under their names.
\<close>

definition two_container :: container where
  "two_container =
     bind (bind (bind new_container (IString ''a'') (IClass Foo) False) (IString ''b'') (IClass Bar) False)
       (IClass Two) (IClass Two) False"

text \<open>The state that \<^verbatim>\<open>make(Two)\<close> leaves: \<^verbatim>\<open>'a'\<close> has been resolved.\<close>

definition two_after :: container where
  "two_after = two_container\<lparr>resolved := {IString ''a''}, heap := [\<lparr>obj_class = ''Foo'', obj_args = []\<rparr>]\<rparr>"

text \<open>The overrides record \<^verbatim>\<open>{ b: 5 }\<close>.\<close>

definition override_b :: overrides where
  "override_b name = (if name = ''b'' then VNum 5 else empty_record name)"




text \<open>
  \<^verbatim>\<open>singleton('bar', Bar); bind(Baz, Baz)\<close>: a transient class with a shared
  dependency. \<open>shared_bar_after\<close> is the state that \<^verbatim>\<open>make(Baz)\<close> leaves.
\<close>

definition shared_bar_container :: container where
  "shared_bar_container = bind (singleton new_container (IString ''bar'') (IClass Bar)) (IClass Baz) (IClass Baz) False"

definition shared_bar_after :: container where
  "shared_bar_after = shared_bar_container
     \<lparr>resolved := {IClass Baz, IString ''bar''}, instances := [IString ''bar'' \<mapsto> VRef 0],
      heap := [\<lparr>obj_class = ''Bar'', obj_args = []\<rparr>, \<lparr>obj_class = ''Baz'', obj_args = [VRef 0]\<rparr>]\<rparr>"

text \<open>
  \<^verbatim>\<open>singleton(Bar, Bar)\<close>, as in the test `creates a singleton', and the state after
  the first \<^verbatim>\<open>make(Bar)\<close>.
\<close>

definition singleton_container :: container where
  "singleton_container = singleton new_container (IClass Bar) (IClass Bar)"

definition singleton_after :: container where
  "singleton_after = singleton_container
     \<lparr>resolved := {IClass Bar}, instances := [IClass Bar \<mapsto> VRef 0],
      heap := [\<lparr>obj_class = ''Bar'', obj_args = []\<rparr>]\<rparr>"

text \<open>\<^verbatim>\<open>bind(Foo, Foo)\<close>, and the states after one and after two calls of \<^verbatim>\<open>make(Foo)\<close>.\<close>

definition transient_container :: container where
  "transient_container = bind new_container (IClass Foo) (IClass Foo) False"

definition transient_after :: "nat \<Rightarrow> container" where
  "transient_after n = transient_container
     \<lparr>resolved := {IClass Foo}, heap := replicate n \<lparr>obj_class = ''Foo'', obj_args = []\<rparr>\<rparr>"

text \<open>
  \<^verbatim>\<open>bind(Foo, Foo); const foo = new Foo(); instance(Foo, foo)\<close>: a transient binding
  and a registered instance under the same identifier.
\<close>

definition registered_container :: container where
  "registered_container =
     instance_reg (transient_container\<lparr>heap := [\<lparr>obj_class = ''Foo'', obj_args = []\<rparr>]\<rparr>) (IClass Foo) (VRef 0)"

text \<open>
  A class whose parameters bear the names of two members of \<^verbatim>\<open>Object.prototype\<close>,
  bound shared under the name \<^verbatim>\<open>'x'\<close>, with \<^verbatim>\<open>'toString'\<close> bound as an alias of
  \<^verbatim>\<open>'x'\<close>; and the overrides record \<^verbatim>\<open>{ toString: undefined, valueOf: undefined }\<close>,
  whose own keys hide the inherited ones.
\<close>

definition X :: class_decl where
  "X = ClassDecl 6 ''X'' ''class X { constructor(toString,valueOf){ } }'' None"

definition x_container :: container where
  "x_container =
     bind (singleton new_container (IString ''x'') (IClass X)) (IString ''toString'') (IString ''x'') False"

definition hidden_keys :: overrides where
  "hidden_keys name = VUndefined"

text \<open>
  \<^verbatim>\<open>singleton(X, X); bind('toString', () => container.make(X))\<close>: the first
  parameter of the shared class is bound to a closure that passes the class to
  \<^verbatim>\<open>make\<close>.
\<close>

definition make_X :: fn_decl where
  "make_X = FnDecl 3 [] (Makes (IClass X))"

definition closure_container :: container where
  "closure_container =
     bind (singleton new_container (IClass X) (IClass X)) (IString ''toString'') (IFunction make_X) False"

text \<open>
  \<^verbatim>\<open>singleton('toString', Y)\<close> with \<^verbatim>\<open>class Y { constructor(toString) { } }\<close>: a
  shared class whose parameter bears the name it is bound under. The overrides
  record \<^verbatim>\<open>{ toString: undefined }\<close> hides the inherited key.
\<close>

definition Y :: class_decl where
  "Y = ClassDecl 7 ''Y'' ''class Y { constructor(toString){ } }'' None"

definition y_container :: container where
  "y_container = singleton new_container (IString ''toString'') (IClass Y)"

definition hidden_toString :: overrides where
  "hidden_toString name = (if name = ''toString'' then VUndefined else empty_record name)"

text \<open>
  The state that \<^verbatim>\<open>make('toString')\<close> leaves, and the state that
  \<^verbatim>\<open>make('toString', { toString: undefined })\<close> leaves.
\<close>

definition y_nested :: container where
  "y_nested = y_container
     \<lparr>resolved := {IString ''toString''}, instances := [IString ''toString'' \<mapsto> VRef 0],
      heap := [\<lparr>obj_class = ''Y'', obj_args = [VBuiltin ''toString'']\<rparr>]\<rparr>"

definition y_after :: container where
  "y_after = y_container
     \<lparr>resolved := {IString ''toString''}, instances := [IString ''toString'' \<mapsto> VRef 1],
      heap := [\<lparr>obj_class = ''Y'', obj_args = [VBuiltin ''toString'']\<rparr>, \<lparr>obj_class = ''Y'', obj_args = [VRef 0]\<rparr>]\<rparr>"

text \<open>
  \<^verbatim>\<open>bind('svc', 'impl'); bind('impl', Foo)\<close>: a transient alias of a transient
  class, and the state after \<open>n\<close> calls of \<^verbatim>\<open>make('svc')\<close>, \<open>n\<close> at least one.
\<close>

definition alias_container :: container where
  "alias_container = bind (bind new_container (IString ''svc'') (IString ''impl'') False) (IString ''impl'') (IClass Foo) False"

definition alias_after :: "nat \<Rightarrow> container" where
  "alias_after n = alias_container
     \<lparr>resolved := {IString ''svc'', IString ''impl''}, heap := replicate n \<lparr>obj_class = ''Foo'', obj_args = []\<rparr>\<rparr>"

text \<open>
  \<^verbatim>\<open>bind('bar', Bar); bind('service', () => new Service(container.make('bar')))\<close>: a
  factory that resolves its dependency through the container, and the state that
  \<^verbatim>\<open>make('service')\<close> leaves.
\<close>

definition make_service :: fn_decl where
  "make_service = FnDecl 4 [] (MakesNew ''Service'' [IString ''bar''])"

definition service_container :: container where
  "service_container =
     bind (bind new_container (IString ''bar'') (IClass Bar) False) (IString ''service'') (IFunction make_service) False"

definition service_after :: container where
  "service_after = service_container
     \<lparr>resolved := {IString ''service'', IString ''bar''},
      heap := [\<lparr>obj_class = ''Bar'', obj_args = []\<rparr>, \<lparr>obj_class = ''Service'', obj_args = [VRef 0]\<rparr>]\<rparr>"

text \<open>
  \<^verbatim>\<open>bind('a', () => container.make('b')); bind('b', () => container.make('a'))\<close>: two
  factories that resolve each other. An arrow function passed as an argument has
  the empty name.
\<close>

definition make_b :: fn_decl where
  "make_b = FnDecl 1 [] (Makes (IString ''b''))"

definition make_a :: fn_decl where
  "make_a = FnDecl 2 [] (Makes (IString ''a''))"

definition factory_cycle_container :: container where
  "factory_cycle_container =
     bind (bind new_container (IString ''a'') (IFunction make_b) False) (IString ''b'') (IFunction make_a) False"

section \<open>Properties of the pipeline\<close>

subsection \<open>Order of execution and mixed shapes\<close>

lemma fold_append_marker: "fold (\<lambda>(s, m) xs. xs @ [m]) sms xs = xs @ map snd sms"
  by (induction sms arbitrary: xs) (auto simp: case_prod_unfold)

lemma dispatch_stages:
  "i \<le> length xs \<Longrightarrow> index < int i \<Longrightarrow>
   fst (dispatch (map (\<lambda>(s, st). as_pipe s (body st)) xs) (int i) v index)
     = Inr (chain (map snd (drop i xs)) v)"
proof (induction "length xs - i" arbitrary: i v index)
  case 0
  then have "i = length xs" by simp
  then show ?case using 0 by (simp add: dispatch.simps)
next
  case (Suc n)
  then have lt: "i < length xs" by simp
  obtain s st where sst: "xs ! i = (s, st)" by (cases "xs ! i")
  have dr: "drop i xs = (s, st) # drop (Suc i) xs"
    using lt sst by (simp add: Cons_nth_drop_Suc [symmetric])
  have ih: "fst (dispatch (map (\<lambda>(s, st). as_pipe s (body st)) xs) (int i + 1) w (int i))
     = Inr (chain (map snd (drop (Suc i) xs)) w)" for w
    using Suc.hyps(1) [of "Suc i" "int i" w] Suc.hyps(2) lt by (simp add: add.commute)
  show ?case
  proof (cases st)
    case (Finish result)
    then show ?thesis
      using lt Suc.prems(2) sst dr
      by (cases s) (simp_all add: dispatch.simps [of _ "int i"])
  next
    case (Forward before after)
    obtain r j where d: "dispatch (map (\<lambda>(s, st). as_pipe s (body st)) xs) (int i + 1) (before v) (int i) = (r, j)"
      by (cases "dispatch (map (\<lambda>(s, st). as_pipe s (body st)) xs) (int i + 1) (before v) (int i)")
    then have r: "r = Inr (chain (map snd (drop (Suc i) xs)) (before v))"
      using ih [of "before v"] by simp
    show ?thesis
      using lt Suc.prems(2) sst dr Forward d r
      by (cases s) (simp_all add: dispatch.simps [of _ "int i"] await_next_def)
  qed
qed

lemma thenReturn_stages:
  "thenReturn (map (\<lambda>(s, st). as_pipe s (body st)) xs) v = Inr (chain (map snd xs) v)"
  using dispatch_stages [of 0 xs "- 1" v] by (simp add: thenReturn_def)

lemma body_forward: "body (Forward f (\<lambda>r. r)) = forward f"
  by (rule ext) (simp add: forward_def)

lemma chain_forward: "chain (map (\<lambda>(s, f). Forward f (\<lambda>r. r)) sfs) v = fold (\<lambda>(s, f). f) sfs v"
  by (induction sfs arbitrary: v) (auto simp: case_prod_unfold)

lemma thenReturn_forward:
  "thenReturn (map (\<lambda>(s, f). as_pipe s (forward f)) sfs) v = Inr (fold (\<lambda>(s, f). f) sfs v)"
  using thenReturn_stages [of "map (\<lambda>(s, f). (s, Forward f (\<lambda>r. r))) sfs" v] chain_forward [of sfs v]
  by (simp add: comp_def case_prod_unfold body_forward)

text \<open>
  Pipes that do not raise run in declared order, whatever their shapes: for pipes
  that transform and forward, or end the chain, the run returns what the list of
  stages computes from first to last, a value in which the shapes do not occur, so
  the same list with every pipe function-shaped, or every pipe class-shaped, returns
  the same. Pipes that each append a marker return the markers in declared order.
  The run of the test suite, \<^verbatim>\<open>send(2).through([double, Square, subtractOne])\<close>,
  returns 15.
\<close>

lemma pipes_run_in_declared_order:
  "thenReturn (map (\<lambda>(s, st). as_pipe s (body st)) xs) v = Inr (chain (map snd xs) v)
   \<and> thenReturn (map (\<lambda>(s, st). as_pipe s (body st)) xs) v
       = thenReturn (map (\<lambda>(s, st). PipeHandler (body st)) xs) v
   \<and> thenReturn (map (\<lambda>(s, st). as_pipe s (body st)) xs) v
       = thenReturn (map (\<lambda>(s, st). PipeClass name (body st)) xs) v
   \<and> thenReturn (map (\<lambda>(s, f). as_pipe s (forward f)) sfs) w = Inr (fold (\<lambda>(s, f). f) sfs w)
   \<and> thenReturn (map (\<lambda>(s, m). as_pipe s (forward (\<lambda>ms. ms @ [m]))) sms) [] = Inr (map snd sms)
   \<and> thenReturn [PipeHandler (forward (\<lambda>v. v * 2)), PipeClass ''Square'' (forward (\<lambda>v. v * v)),
         PipeHandler (forward (\<lambda>v. v - 1))] (2 :: int) = Inr 15"
proof -
  have all_fn: "thenReturn (map (\<lambda>(s, st). PipeHandler (body st)) xs) v = Inr (chain (map snd xs) v)"
    using thenReturn_stages [of "map (\<lambda>(s, st). (AsFunction, st)) xs" v]
    by (simp add: comp_def case_prod_unfold)
  have all_cl: "thenReturn (map (\<lambda>(s, st). PipeClass name (body st)) xs) v = Inr (chain (map snd xs) v)"
    using thenReturn_stages [of "map (\<lambda>(s, st). (AsClass name, st)) xs" v]
    by (simp add: comp_def case_prod_unfold)
  have markers: "thenReturn (map (\<lambda>(s, m). as_pipe s (forward (\<lambda>ms. ms @ [m]))) sms) [] = Inr (map snd sms)"
    using thenReturn_forward [of "map (\<lambda>(s, m). (s, \<lambda>ms. ms @ [m])) sms" "[]"]
          fold_append_marker [of sms "[]"]
    by (simp add: comp_def case_prod_unfold fold_map)
  have example: "thenReturn [PipeHandler (forward (\<lambda>v. v * 2)), PipeClass ''Square'' (forward (\<lambda>v. v * v)),
         PipeHandler (forward (\<lambda>v. v - 1))] (2 :: int) = Inr 15"
    using thenReturn_forward [of "[(AsFunction, \<lambda>v. v * 2), (AsClass ''Square'', \<lambda>v. v * v), (AsFunction, \<lambda>v. v - 1)]" "2 :: int"]
    by simp
  show ?thesis
    using thenReturn_stages [of xs v] thenReturn_forward [of sfs w] all_fn all_cl markers example
    by (simp only: simp_thms)
qed

subsection \<open>Errors raised inside a pipe\<close>

text \<open>A step to an index that is not above the highest index reached is refused.\<close>

lemma dispatch_not_forward:
  "i \<le> index \<Longrightarrow> dispatch pipes i v index = (Inl DoubleInvocation, index)"
  by (simp add: dispatch.simps)

text \<open>
  \<^verbatim>\<open>index\<close> never decreases, and a step that passes the guard leaves it at its own
  index or above. So once pipe \<open>i\<close> has been activated, every later step to \<open>i\<close> or
  below is refused by the lemma above: no pipe is activated twice in one run.
\<close>

lemma run_index_monotone:
  "(\<And>v j. j \<le> snd (next v j)) \<Longrightarrow> index \<le> snd (run next a index)"
proof (induction a arbitrary: index)
  case (Return v)
  then show ?case by simp
next
  case (Throw e)
  then show ?case by simp
next
  case (CallNext v k)
  obtain r j where n: "next v index = (r, j)" by (cases "next v index")
  have "index \<le> j" using CallNext.prems [of index v] n by simp
  moreover have "j \<le> snd (run next (k r) j)"
    using CallNext.IH [of "k r" j] CallNext.prems by (simp add: range_eqI)
  ultimately show ?case using n by simp
qed

lemma dispatch_index_monotone:
  "index \<le> snd (dispatch pipes i v index) \<and> (index < i \<longrightarrow> i \<le> snd (dispatch pipes i v index))"
proof (induction pipes i v index rule: dispatch.induct)
  case (1 pipes i val index)
  show ?case
  proof (cases "i \<le> index")
    case True
    then show ?thesis by (simp add: dispatch.simps)
  next
    case False
    show ?thesis
    proof (cases "i = int (length pipes)")
      case True
      then show ?thesis using False by (simp add: dispatch.simps)
    next
      case ne: False
      show ?thesis
      proof (cases "0 \<le> i \<and> i < int (length pipes)")
        case out: False
        then have "dispatch pipes i val index = (Inl NotAFunction, i)"
          using False ne by (auto simp: dispatch.simps)
        then show ?thesis using False by simp
      next
        case True
        show ?thesis
        proof (cases "pipes ! nat i")
          case (PipeHandler f)
          have nx: "j \<le> snd (dispatch pipes (i + 1) w j)" for w j
            using "1.IH"(1) [OF False ne True PipeHandler] by simp
          have "i \<le> snd (run (dispatch pipes (i + 1)) (f val) i)"
            using run_index_monotone [of "dispatch pipes (i + 1)" i "f val"] nx by simp
          then show ?thesis
            using False ne True PipeHandler by (simp add: dispatch.simps [of pipes i])
        next
          case (PipeClass name handle)
          have nx: "j \<le> snd (dispatch pipes (i + 1) w j)" for w j
            using "1.IH"(2) [OF False ne True PipeClass] by simp
          have "i \<le> snd (run (dispatch pipes (i + 1)) (handle val) i)"
            using run_index_monotone [of "dispatch pipes (i + 1)" i "handle val"] nx by simp
          then show ?thesis
            using False ne True PipeClass
            by (auto simp: dispatch.simps [of pipes i] split: prod.splits sum.splits)
        qed
      qed
    qed
  qed
qed

text \<open>
  A run whose first pipe is class-shaped can only fail with the TypeError of the
  \<^verbatim>\<open>catch\<close> block, whatever was raised inside.
\<close>

lemma class_pipe_failure:
  "thenReturn (PipeClass name handle # pipes) v = Inl e \<Longrightarrow> e = ClassInvokedWithoutNew name"
  by (auto simp: thenReturn_def dispatch.simps [of _ 0] split: prod.splits sum.splits if_splits)

text \<open>
  The function-shaped path lets an error through unchanged: below any number of
  function-shaped forwarding pipes, the error that a function-shaped pipe raises is
  the rejection of the run.
\<close>

lemma dispatch_function_pipe_error:
  "i \<le> length fs \<Longrightarrow> index < int i \<Longrightarrow>
   fst (dispatch (map (\<lambda>f. PipeHandler (forward f)) fs @ PipeHandler (\<lambda>v. Throw e) # rest) (int i) v index)
     = Inl e"
proof (induction "length fs - i" arbitrary: i v index)
  case 0
  then have "i = length fs" by simp
  then show ?case
    using 0 by (simp add: dispatch.simps [of _ "int (length fs)"] nth_append)
next
  case (Suc n)
  then have lt: "i < length fs" by simp
  let ?pipes = "map (\<lambda>f. PipeHandler (forward f)) fs @ PipeHandler (\<lambda>v. Throw e) # rest"
  obtain r j where d: "dispatch ?pipes (int i + 1) ((fs ! i) v) (int i) = (r, j)"
    by (cases "dispatch ?pipes (int i + 1) ((fs ! i) v) (int i)")
  have "fst (dispatch ?pipes (int (Suc i)) ((fs ! i) v) (int i)) = Inl e"
    using Suc.hyps(1) [of "Suc i" "int i" "(fs ! i) v"] Suc.hyps(2) lt by simp
  then have r: "r = Inl e" using d by (simp add: add.commute)
  show ?case
    using lt Suc.prems(2) d r
    by (simp add: dispatch.simps [of _ "int i"] nth_append forward_def await_next_def)
qed

lemma function_pipe_error_propagates:
  "thenReturn (map (\<lambda>f. PipeHandler (forward f)) fs @ PipeHandler (\<lambda>v. Throw e) # rest) v = Inl e"
  using dispatch_function_pipe_error [of 0 fs "- 1" e rest v] by (simp add: thenReturn_def)

text \<open>
  C1. The run \<^verbatim>\<open>send(2).through([Boom]).thenReturn()\<close>, where
  \<^verbatim>\<open>class Boom { async handle(v, next) { throw new Error('boom') } }\<close>, is rejected
  with the TypeError of calling the class \<^verbatim>\<open>Boom\<close> without \<^verbatim>\<open>new\<close> and not with
  the error that the pipe raised; the same body as a function-shaped pipe is
  rejected with the error that it raised.
\<close>

theorem class_pipe_error_is_replaced:
  "thenReturn [PipeClass ''Boom'' boom] 2 = Inl (ClassInvokedWithoutNew ''Boom'')
   \<and> kind (ClassInvokedWithoutNew ''Boom'') = ''TypeError''
   \<and> thenReturn [PipeHandler boom] 2 = Inl (Thrown ''Error'' ''boom'')"
  by (simp add: thenReturn_def dispatch.simps [of _ 0] boom_def)

text \<open>
  C4. The run \<^verbatim>\<open>send('x').through([Bad]).thenReturn()\<close>, where \<^verbatim>\<open>Bad\<close> is a
  class whose \<^verbatim>\<open>handle\<close> has the body of \<^verbatim>\<open>badPipe\<close>, is rejected with the
  TypeError of the \<^verbatim>\<open>catch\<close> block and not with the double-invocation error; the
  function-shaped \<^verbatim>\<open>badPipe\<close> is rejected with the double-invocation error.
\<close>

theorem class_pipe_double_invocation_is_replaced:
  "thenReturn [PipeClass ''Bad'' badPipe] ''x'' = Inl (ClassInvokedWithoutNew ''Bad'')
   \<and> thenReturn [PipeHandler badPipe] ''x'' = Inl DoubleInvocation"
  by (simp add: thenReturn_def dispatch.simps [of _ 0] dispatch.simps [of _ 1] badPipe_def await_next_def)

subsection \<open>Mixed shapes when a pipe raises\<close>

text \<open>
  C8. The run \<^verbatim>\<open>send(2).through([double, Square, fail]).thenReturn()\<close>, where
  \<^verbatim>\<open>fail\<close> is the function-shaped pipe \<^verbatim>\<open>async () => { throw new Error('boom') }\<close>,
  is rejected with the TypeError of calling the class \<^verbatim>\<open>Square\<close> without
  \<^verbatim>\<open>new\<close>. The same three bodies as function-shaped pipes are rejected with the
  error that the last one raised, and as class-shaped pipes with the TypeError of
  calling the first class: the mixed run and its two equivalents end in three
  different results.
\<close>

theorem mixed_shapes_differ_when_a_pipe_raises:
  "thenReturn [PipeHandler (forward (\<lambda>v. v * 2)), PipeClass ''Square'' (forward (\<lambda>v. v * v)),
       PipeHandler boom] 2 = Inl (ClassInvokedWithoutNew ''Square'')
   \<and> thenReturn [PipeHandler (forward (\<lambda>v. v * 2)), PipeHandler (forward (\<lambda>v. v * v)),
       PipeHandler boom] 2 = Inl (Thrown ''Error'' ''boom'')
   \<and> thenReturn [PipeClass ''Double'' (forward (\<lambda>v. v * 2)), PipeClass ''Square'' (forward (\<lambda>v. v * v)),
       PipeClass ''Fail'' boom] 2 = Inl (ClassInvokedWithoutNew ''Double'')"
  by (simp add: thenReturn_def dispatch.simps [of _ 0] dispatch.simps [of _ 1] dispatch.simps [of _ 2]
        forward_def await_next_def boom_def)

section \<open>Properties of the container\<close>

subsection \<open>What a call of make leaves behind\<close>

lemma isShared_bindings: "bindings c' = bindings c \<Longrightarrow> isShared c' k = isShared c k"
  by (simp add: isShared_def)

lemma frame_refl: "frame c c"
  by (simp add: frame_def)

lemma frame_trans:
  assumes "frame c c'" and "frame c' c''"
  shows "frame c c''"
proof -
  have b: "bindings c' = bindings c" "bindings c'' = bindings c'"
    and bs: "buildStack c' = buildStack c" "buildStack c'' = buildStack c'"
    and rs: "resolved c \<subseteq> resolved c'" "resolved c' \<subseteq> resolved c''"
    and hp: "length (heap c) \<le> length (heap c')" "length (heap c') \<le> length (heap c'')"
    and i1: "\<And>k. instances c' k \<noteq> instances c k \<Longrightarrow> instances c k = None \<and> isShared c k"
    and i2: "\<And>k. instances c'' k \<noteq> instances c' k \<Longrightarrow> instances c' k = None \<and> isShared c' k"
    using assms by (simp_all add: frame_def)
  have "instances c k = None \<and> isShared c k" if "instances c'' k \<noteq> instances c k" for k
  proof (cases "instances c' k = instances c k")
    case True
    then have "instances c' k = None \<and> isShared c' k" using that i2 [of k] by simp
    then show ?thesis using True isShared_bindings [OF b(1), of k] by simp
  next
    case False
    then show ?thesis using i1 by simp
  qed
  then show ?thesis
    unfolding frame_def using b bs rs hp by (simp add: order_trans [OF rs] order_trans [OF hp])
qed

lemma calls_frameD: "calls_frame mk \<Longrightarrow> mk c a p = Some (r, c') \<Longrightarrow> frame c c'"
  unfolding calls_frame_def by (elim allE impE) assumption+

lemma alloc_frame: "alloc c name args = (r, c') \<Longrightarrow> frame c c'"
  by (auto simp: alloc_def frame_def)

lemma make_all_frame:
  "calls_frame mk \<Longrightarrow> make_all mk c xs = Some (r, c') \<Longrightarrow> frame c c'"
proof (induction xs arbitrary: c r c')
  case Nil
  then show ?case by (simp add: frame_refl)
next
  case (Cons x xs)
  obtain r1 c1 where m: "mk c x empty_record = Some (r1, c1)"
    using Cons.prems(2) by (cases "mk c x empty_record") auto
  have f1: "frame c c1" using calls_frameD [OF Cons.prems(1) m] .
  show ?case
  proof (cases r1)
    case (Inl e)
    then show ?thesis using Cons.prems(2) m f1 by simp
  next
    case (Inr v)
    then obtain r2 where "make_all mk c1 xs = Some (r2, c')"
      using Cons.prems(2) m by (auto split: option.splits sum.splits)
    then have "frame c1 c'" by (rule Cons.IH [OF Cons.prems(1)])
    then show ?thesis using f1 frame_trans by blast
  qed
qed

lemma invoke_frame:
  assumes "calls_frame mk" and "invoke mk c concrete = Some (r, c')"
  shows "frame c c'"
proof (cases concrete)
  case (IFunction f)
  show ?thesis
  proof (cases "fbody f")
    case (Returns v)
    then show ?thesis using assms(2) IFunction by (auto simp: frame_refl)
  next
    case (ReturnsNew name)
    then show ?thesis using assms(2) IFunction alloc_frame [of c name "[]" r c'] by simp
  next
    case (Throws e)
    then show ?thesis using assms(2) IFunction by (auto simp: frame_refl)
  next
    case (Makes x)
    then have "mk c x empty_record = Some (r, c')" using assms(2) IFunction by simp
    then show ?thesis by (rule calls_frameD [OF assms(1)])
  next
    case (MakesNew name xs)
    obtain r1 c1 where m: "make_all mk c xs = Some (r1, c1)"
      using assms(2) IFunction MakesNew by (cases "make_all mk c xs") auto
    have f1: "frame c c1" using make_all_frame [OF assms(1) m] .
    show ?thesis
    proof (cases r1)
      case (Inl e)
      then show ?thesis using assms(2) IFunction MakesNew m f1 by simp
    next
      case (Inr args)
      then have "alloc c1 name args = (r, c')" using assms(2) IFunction MakesNew m by simp
      then show ?thesis using alloc_frame f1 frame_trans by blast
    qed
  qed
next
  case (IClass k)
  then show ?thesis using assms(2) by (auto simp: frame_refl)
next
  case (IString s)
  then show ?thesis using assms(2) by (auto simp: frame_refl)
next
  case (ISymbol i d)
  then show ?thesis using assms(2) by (auto simp: frame_refl)
qed

lemma construct_frame: "construct c concrete deps = (r, c') \<Longrightarrow> frame c c'"
  by (cases concrete) (auto simp: frame_refl split: option.splits dest: alloc_frame)

lemma dependency_frame:
  "calls_frame mk \<Longrightarrow> dependency mk c ps owner name index = Some (r, c') \<Longrightarrow> frame c c'"
proof -
  assume mk: "calls_frame mk" and d: "dependency mk c ps owner name index = Some (r, c')"
  show ?thesis
  proof (cases "ps name = VUndefined \<and> has c (IString name)")
    case True
    then have "mk c (IString name) empty_record = Some (r, c')" using d by (simp add: dependency_def)
    then show ?thesis by (rule calls_frameD [OF mk])
  next
    case False
    then have "c' = c" using d by (auto simp: dependency_def split: if_splits)
    then show ?thesis by (simp add: frame_refl)
  qed
qed

lemma dependencies_frame:
  "calls_frame mk \<Longrightarrow> dependencies mk c ps owner names index = Some (r, c') \<Longrightarrow> frame c c'"
proof (induction names arbitrary: c index r c')
  case Nil
  then show ?case by (simp add: frame_refl)
next
  case (Cons name names)
  show ?case
  proof (cases "dependency mk c ps owner name index")
    case None
    then show ?thesis using Cons.prems by simp
  next
    case (Some x)
    obtain r1 c1 where x: "x = (r1, c1)" by (cases x)
    have f1: "frame c c1" using dependency_frame [OF Cons.prems(1)] Some x by simp
    show ?thesis
    proof (cases r1)
      case (Inl e)
      then show ?thesis using Cons.prems Some x f1 by simp
    next
      case (Inr d)
      then obtain r2 where "dependencies mk c1 ps owner names (Suc index) = Some (r2, c')"
        using Cons.prems Some x by (auto split: option.splits sum.splits)
      then have "frame c1 c'" by (rule Cons.IH [OF Cons.prems(1)])
      then show ?thesis using f1 frame_trans by blast
    qed
  qed
qed

lemma build_frame:
  assumes "calls_frame mk" and "build mk c concrete ps = Some (r, c')"
  shows "frame c c'"
proof (cases "is_function concrete \<and> \<not> isClass concrete")
  case True
  then show ?thesis using assms(2) invoke_frame [OF assms(1), of c concrete r c'] by (simp add: build_def)
next
  case False
  then obtain r1 c1 where d: "dependencies mk c ps (name_of concrete) (getParamNames (toString concrete)) 0 = Some (r1, c1)"
    using assms(2) by (auto simp: build_def split: option.splits)
  have f1: "frame c c1" using dependencies_frame [OF assms(1) d] .
  show ?thesis
  proof (cases r1)
    case (Inl e)
    then show ?thesis using assms(2) False d f1 by (simp add: build_def)
  next
    case (Inr deps)
    then have "construct c1 concrete deps = (r, c')" using assms(2) False d by (simp add: build_def)
    then show ?thesis using construct_frame f1 frame_trans by blast
  qed
qed

lemma make_cached: "instances c a = Some inst \<Longrightarrow> make (Suc n) c a p = Some (Inr inst, c)"
  by simp

lemma make_uncached:
  "instances c a = None \<Longrightarrow>
   make (Suc n) c a p =
     (case inner n c a p of
        None \<Rightarrow> None
      | Some (Inl e, c') \<Rightarrow> Some (Inl e, c')
      | Some (Inr object, c') \<Rightarrow> Some (Inr object, store c' a object))"
  by (simp add: inner_def store_def Let_def split: option.splits sum.splits prod.splits)

lemma store_fields:
  "bindings (store c a object) = bindings c"
  "buildStack (store c a object) = buildStack c"
  "heap (store c a object) = heap c"
  "resolved (store c a object) = insert a (resolved c)"
  "instances (store c a object) = (if isShared c a then (instances c)(a \<mapsto> object) else instances c)"
  by (simp_all add: store_def)

declare make.simps [simp del]

text \<open>Every call of \<open>make\<close> that returns or raises leaves a \<open>frame\<close>.\<close>

lemma make_leaves_plain_frame: "make n c a p = Some (r, c') \<Longrightarrow> frame c c'"
proof (induction n arbitrary: c a p r c')
  case 0
  then show ?case by (simp add: make.simps)
next
  case (Suc n)
  have calls: "calls_frame (make n)"
    unfolding calls_frame_def by (intro allI impI) (rule Suc.IH)
  show ?case
  proof (cases "instances c a")
    case (Some inst)
    then have "c' = c" using Suc.prems make_cached [OF Some, of n p] by simp
    then show ?thesis by (simp add: frame_refl)
  next
    case None
    note unc = make_uncached [OF None, of n p]
    obtain r1 c1 where inner: "inner n c a p = Some (r1, c1)"
      using Suc.prems unc by (cases "inner n c a p") auto
    have fr: "frame c c1"
    proof (cases "isBuildable (getConcrete c a) a")
      case True
      then show ?thesis using inner build_frame [OF calls] by (simp add: inner_def)
    next
      case False
      then have "make n c (getConcrete c a) empty_record = Some (r1, c1)"
        using inner by (simp add: inner_def)
      then show ?thesis by (rule Suc.IH)
    qed
    show ?thesis
    proof (cases r1)
      case (Inl e)
      then have "c' = c1" using Suc.prems unc inner by simp
      then show ?thesis using fr by simp
    next
      case (Inr object)
      then have c': "c' = store c1 a object"
        using Suc.prems unc inner by simp
      have sh: "isShared c1 a = isShared c a"
        using fr isShared_bindings [of c1 c a] by (simp add: frame_def)
      show ?thesis
        unfolding frame_def c' store_fields sh
        using fr None by (auto simp: frame_def)
    qed
  qed
qed

lemma make_calls_frame: "calls_frame (make n)"
  unfolding calls_frame_def by (intro allI impI) (rule make_leaves_plain_frame)

subsection \<open>Nested calls for names\<close>















subsection \<open>Fuel\<close>

lemma dependency_mono:
  assumes "fuel_mono mk mk'" and "dependency mk c ps owner name index = Some x"
  shows "dependency mk' c ps owner name index = Some x"
proof (cases "ps name = VUndefined \<and> has c (IString name)")
  case True
  then have "mk c (IString name) empty_record = Some x" using assms(2) by (simp add: dependency_def)
  then have "mk' c (IString name) empty_record = Some x"
    using assms(1) unfolding fuel_mono_def by (elim allE impE) assumption+
  then show ?thesis using True by (simp add: dependency_def)
next
  case False
  then show ?thesis using assms(2) by (auto simp: dependency_def)
qed

lemma dependencies_mono:
  "fuel_mono mk mk' \<Longrightarrow> dependencies mk c ps owner names index = Some x
   \<Longrightarrow> dependencies mk' c ps owner names index = Some x"
proof (induction names arbitrary: c index x)
  case Nil
  then show ?case by simp
next
  case (Cons name names)
  obtain r1 c1 where d: "dependency mk c ps owner name index = Some (r1, c1)"
    using Cons.prems(2) by (cases "dependency mk c ps owner name index") auto
  have d': "dependency mk' c ps owner name index = Some (r1, c1)"
    using dependency_mono [OF Cons.prems(1) d] .
  show ?case
  proof (cases r1)
    case (Inl e)
    then show ?thesis using Cons.prems(2) d d' by simp
  next
    case (Inr v)
    obtain x2 where rest: "dependencies mk c1 ps owner names (Suc index) = Some x2"
      using Cons.prems(2) d Inr by (cases "dependencies mk c1 ps owner names (Suc index)") auto
    have "dependencies mk' c1 ps owner names (Suc index) = Some x2"
      using Cons.IH [OF Cons.prems(1) rest] .
    then show ?thesis using Cons.prems(2) d d' Inr rest by simp
  qed
qed

lemma make_all_mono:
  "fuel_mono mk mk' \<Longrightarrow> make_all mk c xs = Some y \<Longrightarrow> make_all mk' c xs = Some y"
proof (induction xs arbitrary: c y)
  case Nil
  then show ?case by simp
next
  case (Cons x xs)
  obtain r1 c1 where d: "mk c x empty_record = Some (r1, c1)"
    using Cons.prems(2) by (cases "mk c x empty_record") auto
  then have d': "mk' c x empty_record = Some (r1, c1)"
    using Cons.prems(1) unfolding fuel_mono_def by (elim allE impE) assumption+
  show ?case
  proof (cases r1)
    case (Inl e)
    then show ?thesis using Cons.prems(2) d d' by simp
  next
    case (Inr v)
    obtain x2 where rest: "make_all mk c1 xs = Some x2"
      using Cons.prems(2) d Inr by (cases "make_all mk c1 xs") auto
    have "make_all mk' c1 xs = Some x2"
      using Cons.IH [OF Cons.prems(1) rest] .
    then show ?thesis using Cons.prems(2) d d' Inr rest by simp
  qed
qed

lemma invoke_mono:
  assumes "fuel_mono mk mk'" and "invoke mk c concrete = Some x"
  shows "invoke mk' c concrete = Some x"
proof (cases concrete)
  case (IFunction f)
  show ?thesis
  proof (cases "fbody f")
    case (Returns v)
    then show ?thesis using assms(2) IFunction by simp
  next
    case (ReturnsNew name)
    then show ?thesis using assms(2) IFunction by simp
  next
    case (Throws e)
    then show ?thesis using assms(2) IFunction by simp
  next
    case (Makes z)
    then have "mk c z empty_record = Some x" using assms(2) IFunction by simp
    then have "mk' c z empty_record = Some x"
      using assms(1) unfolding fuel_mono_def by (elim allE impE) assumption+
    then show ?thesis using IFunction Makes by simp
  next
    case (MakesNew name xs)
    obtain y where m: "make_all mk c xs = Some y"
      using assms(2) IFunction MakesNew by (cases "make_all mk c xs") auto
    have "make_all mk' c xs = Some y" using make_all_mono [OF assms(1) m] .
    then show ?thesis using assms(2) IFunction MakesNew m by simp
  qed
next
  case (IClass k)
  then show ?thesis using assms(2) by simp
next
  case (IString s)
  then show ?thesis using assms(2) by simp
next
  case (ISymbol i d)
  then show ?thesis using assms(2) by simp
qed

lemma build_invoke:
  "is_function concrete \<and> \<not> isClass concrete \<Longrightarrow> build mk c concrete ps = invoke mk c concrete"
  by (simp add: build_def)

lemma build_construct:
  "\<not> (is_function concrete \<and> \<not> isClass concrete) \<Longrightarrow>
   build mk c concrete ps =
     (case dependencies mk c ps (name_of concrete) (getParamNames (toString concrete)) 0 of
        None \<Rightarrow> None
      | Some (Inl e, c') \<Rightarrow> Some (Inl e, c')
      | Some (Inr deps, c') \<Rightarrow> Some (construct c' concrete deps))"
  by (auto simp: build_def)

lemma build_mono:
  assumes "fuel_mono mk mk'" and "build mk c concrete ps = Some x"
  shows "build mk' c concrete ps = Some x"
proof (cases "is_function concrete \<and> \<not> isClass concrete")
  case True
  then show ?thesis using assms(2) invoke_mono [OF assms(1), of c concrete x] by (simp add: build_invoke)
next
  case False
  obtain y where d: "dependencies mk c ps (name_of concrete) (getParamNames (toString concrete)) 0 = Some y"
    using assms(2) build_construct [OF False, of mk c ps]
    by (cases "dependencies mk c ps (name_of concrete) (getParamNames (toString concrete)) 0") auto
  have "dependencies mk' c ps (name_of concrete) (getParamNames (toString concrete)) 0 = Some y"
    using dependencies_mono [OF assms(1) d] .
  then show ?thesis
    using assms(2) d build_construct [OF False, of mk c ps] build_construct [OF False, of mk' c ps] by simp
qed

lemma make_Suc_mono: "fuel_mono (make n) (make (Suc n))"
proof (induction n)
  case 0
  then show ?case by (simp add: fuel_mono_def make.simps)
next
  case (Suc n)
  show ?case
    unfolding fuel_mono_def
  proof (intro allI impI)
    fix c a p x
    assume m: "make (Suc n) c a p = Some x"
    show "make (Suc (Suc n)) c a p = Some x"
    proof (cases "instances c a")
      case (Some inst)
      then show ?thesis using m make_cached [OF Some] by simp
    next
      case None
      obtain y where i: "inner n c a p = Some y"
        using m make_uncached [OF None, of n p] by (cases "inner n c a p") auto
      have "inner (Suc n) c a p = Some y"
      proof (cases "isBuildable (getConcrete c a) a")
        case True
        then show ?thesis using i build_mono [OF Suc.IH] by (simp add: inner_def)
      next
        case False
        then have "make n c (getConcrete c a) empty_record = Some y" using i by (simp add: inner_def)
        then have "make (Suc n) c (getConcrete c a) empty_record = Some y"
          using Suc.IH unfolding fuel_mono_def by (elim allE impE) assumption+
        then show ?thesis using False by (simp add: inner_def)
      qed
      then show ?thesis using m i make_uncached [OF None, of n p] make_uncached [OF None, of "Suc n" p] by simp
    qed
  qed
qed

lemma make_fuel_mono: "n \<le> m \<Longrightarrow> fuel_mono (make n) (make m)"
proof (induction m)
  case 0
  then show ?case by (simp add: fuel_mono_def)
next
  case (Suc m)
  show ?case
  proof (cases "n = Suc m")
    case True
    then show ?thesis by (simp add: fuel_mono_def)
  next
    case False
    then have "fuel_mono (make n) (make m)" using Suc by simp
    then show ?thesis using make_Suc_mono [of m] unfolding fuel_mono_def
      by (intro allI impI) (elim allE impE, assumption+)
  qed
qed

lemma make_more_fuel: "make n c a p = Some x \<Longrightarrow> n \<le> m \<Longrightarrow> make m c a p = Some x"
proof -
  assume m: "make n c a p = Some x" and "n \<le> m"
  then have "\<forall>c a p x. make n c a p = Some x \<longrightarrow> make m c a p = Some x"
    using make_fuel_mono [of n m] by (simp add: fuel_mono_def)
  then show ?thesis using m by (elim allE impE) assumption+
qed

subsection \<open>Termination on an acyclic dependency graph\<close>

lemma has_frame: "frame c c' \<Longrightarrow> has c' k = has c k"
proof -
  assume f: "frame c c'"
  then have b: "bindings c' = bindings c"
    and i: "instances c' k \<noteq> instances c k \<longrightarrow> instances c k = None \<and> isShared c k"
    by (simp_all add: frame_def)
  show ?thesis
  proof (cases "instances c' k = instances c k")
    case True
    then show ?thesis using b by (simp add: has_def)
  next
    case False
    then have "isShared c k" using i by simp
    then have "bindings c k \<noteq> None" by (auto simp: isShared_def split: option.splits)
    then show ?thesis using b by (simp add: has_def)
  qed
qed

lemma getConcrete_frame: "frame c c' \<Longrightarrow> getConcrete c' a = getConcrete c a"
  by (simp add: frame_def getConcrete_def)

lemma edges_frame: "frame c c' \<Longrightarrow> edges c' a = edges c a"
  using getConcrete_frame [of c c' a] has_frame [of c c'] by (simp add: edges_def Let_def)

text \<open>The names of a class all resolve, given enough fuel, when each bound one does.\<close>

lemma dependencies_terminate:
  assumes ih: "\<And>name c1 p. name \<in> set names \<Longrightarrow> has c (IString name) \<Longrightarrow> frame c c1
                 \<Longrightarrow> \<exists>n x. make n c1 (IString name) p = Some x"
  shows "frame c c1 \<Longrightarrow> \<exists>n x. dependencies (make n) c1 ps owner names index = Some x"
  using ih
proof (induction names arbitrary: c1 index)
  case Nil
  then show ?case by simp
next
  case (Cons name names)
  have rest: "\<exists>n x. dependencies (make n) c2 ps owner names (Suc index) = Some x" if "frame c c2" for c2
    using Cons.IH [OF that] Cons.prems(2) by simp
  show ?case
  proof (cases "ps name = VUndefined \<and> has c1 (IString name)")
    case True
    then have "has c (IString name)" using has_frame [OF Cons.prems(1)] by simp
    then obtain n1 x1 where m1: "make n1 c1 (IString name) empty_record = Some x1"
      using Cons.prems(2) [of name c1 empty_record] Cons.prems(1) by auto
    obtain r1 c2 where x1: "x1 = (r1, c2)" by (cases x1)
    have f2: "frame c c2"
      using make_leaves_plain_frame m1 x1 Cons.prems(1) frame_trans by blast
    show ?thesis
    proof (cases r1)
      case (Inl e)
      then have "dependencies (make n1) c1 ps owner (name # names) index = Some (Inl e, c2)"
        using True m1 x1 by (simp add: dependency_def)
      then show ?thesis by blast
    next
      case (Inr d)
      obtain n2 x2 where m2: "dependencies (make n2) c2 ps owner names (Suc index) = Some x2"
        using rest [OF f2] by blast
      let ?n = "max n1 n2"
      have "make ?n c1 (IString name) empty_record = Some (Inr d, c2)"
        using make_more_fuel [OF m1, of ?n] x1 Inr by simp
      then have d1: "dependency (make ?n) c1 ps owner name index = Some (Inr d, c2)"
        using True by (simp add: dependency_def)
      have d2: "dependencies (make ?n) c2 ps owner names (Suc index) = Some x2"
        using dependencies_mono [OF make_fuel_mono m2, of ?n] by simp
      have "\<exists>x. dependencies (make ?n) c1 ps owner (name # names) index = Some x"
        using d1 d2 by (cases x2) (auto split: sum.splits)
      then show ?thesis by blast
    qed
  next
    case False
    define r1 where "r1 = (if ps name \<noteq> VUndefined then Inr (ps name)
                           else Inl (MissingDependency name index owner))"
    have d1: "dependency (make n) c1 ps owner name index = Some (r1, c1)" for n
      using False by (auto simp: dependency_def r1_def)
    show ?thesis
    proof (cases r1)
      case (Inl e)
      then have "dependencies (make 0) c1 ps owner (name # names) index = Some (Inl e, c1)"
        using d1 by simp
      then show ?thesis by blast
    next
      case (Inr d)
      obtain n2 x2 where m2: "dependencies (make n2) c1 ps owner names (Suc index) = Some x2"
        using rest [OF Cons.prems(1)] by blast
      have "\<exists>x. dependencies (make n2) c1 ps owner (name # names) index = Some x"
        using d1 [of n2] m2 Inr by (cases x2) (auto split: sum.splits)
      then show ?thesis by blast
    qed
  qed
qed

text \<open>The identifiers that a closure resolves all resolve, given enough fuel, when each does.\<close>

lemma make_all_terminate:
  assumes ih: "\<And>z c1. z \<in> set xs \<Longrightarrow> frame c c1
                 \<Longrightarrow> \<exists>n y. make n c1 z empty_record = Some y"
  shows "frame c c1 \<Longrightarrow> \<exists>n y. make_all (make n) c1 xs = Some y"
  using ih
proof (induction xs arbitrary: c1)
  case Nil
  then show ?case by simp
next
  case (Cons name names)
  have rest: "\<exists>n x. make_all (make n) c2 names = Some x" if "frame c c2" for c2
    using Cons.IH [OF that] Cons.prems(2) by simp
  obtain n1 x1 where m1: "make n1 c1 name empty_record = Some x1"
    using Cons.prems(2) [of name c1] Cons.prems(1) by auto
  obtain r1 c2 where x1: "x1 = (r1, c2)" by (cases x1)
  have f2: "frame c c2"
    using make_leaves_plain_frame m1 x1 Cons.prems(1) frame_trans by blast
  show ?case
  proof (cases r1)
    case (Inl e)
    then have "make_all (make n1) c1 (name # names) = Some (Inl e, c2)"
      using m1 x1 by simp
    then show ?thesis by blast
  next
    case (Inr d)
    obtain n2 x2 where m2: "make_all (make n2) c2 names = Some x2"
      using rest [OF f2] by blast
    let ?n = "max n1 n2"
    have a1: "make ?n c1 name empty_record = Some (Inr d, c2)"
      using make_more_fuel [OF m1, of ?n] x1 Inr by simp
    have a2: "make_all (make ?n) c2 names = Some x2"
      using make_all_mono [OF make_fuel_mono m2, of ?n] by simp
    have "\<exists>x. make_all (make ?n) c1 (name # names) = Some x"
      using a1 a2 by (cases x2) (auto split: sum.splits)
    then show ?thesis by blast
  qed
qed

lemma make_terminates_aux:
  assumes "wf (dep_rel c)"
  shows "\<forall>c1 p. frame c c1 \<longrightarrow> (\<exists>n x. make n c1 a p = Some x)"
  using assms
proof (induction a rule: wf_induct_rule)
  case (less a)
  show ?case
  proof (intro allI impI)
    fix c1 p
    assume f: "frame c c1"
    show "\<exists>n x. make n c1 a p = Some x"
    proof (cases "instances c1 a")
      case (Some inst)
      then have "make (Suc 0) c1 a p = Some (Inr inst, c1)" by (rule make_cached)
      then show ?thesis by blast
    next
      case None
      let ?concrete = "getConcrete c a"
      have gc: "getConcrete c1 a = ?concrete" using getConcrete_frame [OF f] .
      have "\<exists>n y. inner n c1 a p = Some y"
      proof (cases "isBuildable ?concrete a")
        case False
        then have "?concrete \<in> set (edges c a)" by (simp add: edges_def)
        then have "(?concrete, a) \<in> dep_rel c" by (simp add: dep_rel_def)
        then obtain n y where "make n c1 ?concrete empty_record = Some y"
          using less.IH f by blast
        then have "inner n c1 a p = Some y" using False gc by (simp add: inner_def)
        then show ?thesis by blast
      next
        case True
        show ?thesis
        proof (cases "is_function ?concrete \<and> \<not> isClass ?concrete")
          case fn: True
          have "\<exists>n y. invoke (make n) c1 ?concrete = Some y"
          proof (cases ?concrete)
            case (IFunction g)
            show ?thesis
            proof (cases "fbody g")
              case (Returns v)
              then have "invoke (make 0) c1 ?concrete = Some (Inr v, c1)" using IFunction by simp
              then show ?thesis by blast
            next
              case (ReturnsNew name)
              then have "invoke (make 0) c1 ?concrete = Some (alloc c1 name [])" using IFunction by simp
              then show ?thesis by blast
            next
              case (Throws e)
              then have "invoke (make 0) c1 ?concrete = Some (Inl e, c1)" using IFunction by simp
              then show ?thesis by blast
            next
              case (Makes z)
              have "z \<in> set (edges c a)"
                using True fn IFunction Makes by (simp add: edges_def)
              then have "(z, a) \<in> dep_rel c" by (simp add: dep_rel_def)
              then obtain n y where "make n c1 z empty_record = Some y"
                using less.IH f by blast
              then have "invoke (make n) c1 ?concrete = Some y" using IFunction Makes by simp
              then show ?thesis by blast
            next
              case (MakesNew cls zs)
              have "\<exists>n x. make n c2 z empty_record = Some x"
                if "z \<in> set zs" "frame c c2" for z c2
              proof -
                have "z \<in> set (edges c a)"
                  using that(1) True fn IFunction MakesNew by (auto simp: edges_def)
                then have "(z, a) \<in> dep_rel c" by (simp add: dep_rel_def)
                then show ?thesis using less.IH that(2) by blast
              qed
              then obtain n y where m: "make_all (make n) c1 zs = Some y"
                using make_all_terminate [of zs c c1] f by blast
              have "\<exists>z. invoke (make n) c1 ?concrete = Some z"
                using m IFunction MakesNew by (cases y) (auto split: sum.splits)
              then show ?thesis by blast
            qed
          next
            case (IClass k)
            then have "invoke (make 0) c1 ?concrete = Some (Inl (ClassInvokedWithoutNew (cname k)), c1)"
              by simp
            then show ?thesis by blast
          next
            case (IString s)
            then show ?thesis using fn by simp
          next
            case (ISymbol i d)
            then show ?thesis using fn by simp
          qed
          then obtain n y where "invoke (make n) c1 ?concrete = Some y" by blast
          then have "inner n c1 a p = Some y"
            using True gc build_invoke [OF fn, of "make n" c1 p] by (simp add: inner_def)
          then show ?thesis by blast
        next
          case cl: False
          let ?names = "getParamNames (toString ?concrete)"
          have "\<exists>n x. make n c2 (IString name) q = Some x"
            if "name \<in> set ?names" "has c (IString name)" "frame c c2" for name c2 q
          proof -
            have "IString name \<in> set (edges c a)" using that(1,2) True cl by (auto simp: edges_def)
            then have "(IString name, a) \<in> dep_rel c" by (simp add: dep_rel_def)
            then show ?thesis using less.IH that(3) by blast
          qed
          then obtain n y where d: "dependencies (make n) c1 p (name_of ?concrete) ?names 0 = Some y"
            using dependencies_terminate [of ?names c c1 p "name_of ?concrete" 0] f by blast
          have "\<exists>z. build (make n) c1 ?concrete p = Some z"
            using d build_construct [OF cl, of "make n" c1 p] by (cases y) (auto split: sum.splits)
          then show ?thesis using True gc by (auto simp: inner_def)
        qed
      qed
      then obtain n y where "inner n c1 a p = Some y" by blast
      then have "\<exists>x. make (Suc n) c1 a p = Some x"
        using make_uncached [OF None, of n p] by (cases y) (auto split: sum.splits)
      then show ?thesis by blast
    qed
  qed
qed

text \<open>
  C10, as amended. On a state whose dependency graph is well-founded, \<open>make\<close>
  returns (a value or an error) for every identifier and every overrides record,
  given enough fuel; no call writes \<^verbatim>\<open>buildStack\<close>. The graph \<open>dep_rel\<close> links an
  identifier to its bound alias, to the constructor parameter names of its producer
  that the container has, and to the identifiers that its factory passes to
  \<^verbatim>\<open>make\<close>.
\<close>

theorem make_terminates:
  "wf (dep_rel c) \<Longrightarrow> \<exists>n r c'. make n c a p = Some (r, c') \<and> buildStack c' = buildStack c"
proof -
  assume "wf (dep_rel c)"
  then obtain n x where m: "make n c a p = Some x"
    using make_terminates_aux [of c a] frame_refl [of c] by blast
  obtain r c' where x: "x = (r, c')" by (cases x)
  have "frame c c'" using make_leaves_plain_frame m x by blast
  then have "buildStack c' = buildStack c" by (simp add: frame_def)
  then show ?thesis using m x by blast
qed

subsection \<open>The example classes\<close>

lemma names_Foo: "getParamNames (csrc Foo) = []"
  by (simp add: Foo_def getParamNames_def)
lemma names_Bar: "getParamNames (csrc Bar) = []"
  by (simp add: Bar_def getParamNames_def)
lemma names_Baz: "getParamNames (csrc Baz) = [''bar'']"
  by (simp add: Baz_def getParamNames_def is_space_def)
lemma names_Two: "getParamNames (csrc Two) = [''a'', '' b'']"
  by (simp add: Two_def getParamNames_def is_space_def)
lemma isClass_examples: "isClass (IClass Foo)" "isClass (IClass Bar)" "isClass (IClass Baz)" "isClass (IClass Two)"
  by (simp_all add: Foo_def Bar_def Baz_def Two_def is_space_def)

subsection \<open>C10: an acyclic state, and a cyclic one\<close>

lemma has_baz_container: "has baz_container k \<longleftrightarrow> k = IString ''bar'' \<or> k = IClass Baz"
  by (auto simp: has_def baz_container_def bind_def new_container_def)

text \<open>
  In the state of the test every edge leads to \<^verbatim>\<open>'bar'\<close>, which has none, or from
  a closure to an identifier that occurs in it.
\<close>

lemma closure_idents_size: "b \<in> set (closure_idents a) \<Longrightarrow> size b < size a"
proof (cases a)
  case (IFunction f)
  assume b: "b \<in> set (closure_idents a)"
  obtain i n body where f: "f = FnDecl i n body" by (cases f)
  show ?thesis
  proof (cases body)
    case (Makes x)
    then show ?thesis using b IFunction f by simp
  next
    case (MakesNew cls xs)
    then have "b \<in> set xs" using b IFunction f by simp
    then have "size b < Suc (size_list size xs)"
      using size_list_estimation' [of b xs "size b" size] by simp
    then show ?thesis using IFunction f MakesNew by simp
  qed (use b IFunction f in simp_all)
qed simp_all

lemma edges_baz_container:
  "b \<in> set (edges baz_container a) \<Longrightarrow>
   (b = IString ''bar'' \<and> a \<noteq> IString ''bar'') \<or> (size b < size a \<and> a \<noteq> IString ''bar'')"
proof -
  assume b: "b \<in> set (edges baz_container a)"
  have gc: "getConcrete baz_container a = (if a = IString ''bar'' then IClass Bar else a)"
    by (auto simp: getConcrete_def baz_container_def bind_def new_container_def)
  show ?thesis
  proof (cases "a = IString ''bar''")
    case True
    then have "edges baz_container a = []"
      using gc names_Bar isClass_examples by (simp add: edges_def isBuildable_def)
    then show ?thesis using b by simp
  next
    case False
    then have bu: "isBuildable (getConcrete baz_container a) a" and gca: "getConcrete baz_container a = a"
      using gc by (simp_all add: isBuildable_def)
    show ?thesis
    proof (cases "is_function a \<and> \<not> isClass a")
      case True
      then have "b \<in> set (closure_idents a)" using b bu gca by (simp add: edges_def)
      then show ?thesis using closure_idents_size False by simp
    next
      case nf: False
      then obtain name where "b = IString name" "has baz_container (IString name)"
        using b bu gca by (auto simp: edges_def Let_def split: if_splits)
      then show ?thesis using False has_baz_container by simp
    qed
  qed
qed

lemma wf_baz_container: "wf (dep_rel baz_container)"
proof -
  let ?m = "\<lambda>k. if k = IString ''bar'' then 0 else Suc (size k)"
  have "(b, a) \<in> measure ?m" if "(b, a) \<in> dep_rel baz_container" for b a
    using edges_baz_container [of b a] that by (auto simp: dep_rel_def)
  then have "dep_rel baz_container \<subseteq> measure ?m"
    by (intro subrelI)
  then show ?thesis using wf_subset wf_measure by blast
qed

text \<open>
  The same in the state with a factory that calls \<^verbatim>\<open>make\<close>: the factory's edge
  leads to \<^verbatim>\<open>'bar'\<close>. The call \<^verbatim>\<open>make('service')\<close> returns a new object that holds
  what the nested \<^verbatim>\<open>make('bar')\<close> returned.
\<close>

lemma getConcrete_service_container:
  "getConcrete service_container a =
     (if a = IString ''service'' then IFunction make_service else if a = IString ''bar'' then IClass Bar else a)"
  by (simp add: getConcrete_def service_container_def bind_def new_container_def)

lemma has_service_container: "has service_container k \<longleftrightarrow> k = IString ''bar'' \<or> k = IString ''service''"
  by (auto simp: has_def service_container_def bind_def new_container_def)

lemma edges_service_container:
  assumes "b \<in> set (edges service_container a)"
  shows "(if b = IString ''bar'' then 0 else if b = IString ''service'' then Suc 0 else Suc (Suc (size b)))
         < (if a = IString ''bar'' then 0 else if a = IString ''service'' then Suc 0 else Suc (Suc (size a)))"
proof -
  note gc = getConcrete_service_container [of a]
  consider "a = IString ''bar''" | "a = IString ''service''" | "a \<noteq> IString ''bar''" "a \<noteq> IString ''service''"
    by blast
  then show ?thesis
  proof cases
    case 1
    then have "edges service_container a = []"
      using gc names_Bar isClass_examples by (simp add: edges_def isBuildable_def)
    then show ?thesis using assms by simp
  next
    case 2
    then have "edges service_container a = [IString ''bar'']"
      using gc by (simp add: edges_def isBuildable_def make_service_def)
    then show ?thesis using assms 2 by simp
  next
    case 3
    then have bu: "isBuildable (getConcrete service_container a) a" and gca: "getConcrete service_container a = a"
      using gc by (simp_all add: isBuildable_def)
    show ?thesis
    proof (cases "is_function a \<and> \<not> isClass a")
      case True
      then have "b \<in> set (closure_idents a)" using assms bu gca by (simp add: edges_def)
      then show ?thesis using closure_idents_size [of b a] 3 by simp
    next
      case False
      then obtain name where "b = IString name" "has service_container (IString name)"
        using assms bu gca by (auto simp: edges_def Let_def split: if_splits)
      then show ?thesis using 3 has_service_container by auto
    qed
  qed
qed

lemma wf_service_container: "wf (dep_rel service_container)"
proof -
  let ?m = "\<lambda>k. if k = IString ''bar'' then 0 else if k = IString ''service'' then Suc 0 else Suc (Suc (size k))"
  have "(b, a) \<in> measure ?m" if "(b, a) \<in> dep_rel service_container" for b a
    using edges_service_container [of b a] that by (simp add: dep_rel_def)
  then have "dep_rel service_container \<subseteq> measure ?m"
    by (intro subrelI)
  then show ?thesis using wf_subset wf_measure by blast
qed

lemma make_service_returns:
  "make (Suc (Suc 0)) service_container (IString ''service'') empty_record = Some (Inr (VRef 1), service_after)"
  using isClass_examples(2) names_Bar
  by (simp add: make.simps service_after_def service_container_def make_service_def bind_def
        new_container_def getConcrete_def isBuildable_def isShared_def build_def alloc_def Bar_def Let_def)

theorem make_terminates_witness:
  "wf (dep_rel baz_container)
   \<and> (\<exists>n r c'. make n baz_container (IClass Baz) empty_record = Some (r, c')
         \<and> buildStack c' = buildStack baz_container)
   \<and> wf (dep_rel service_container)
   \<and> (\<exists>n r c'. make n service_container (IString ''service'') empty_record = Some (r, c')
         \<and> buildStack c' = buildStack service_container)"
  using make_terminates [of baz_container "IClass Baz" empty_record] wf_baz_container
    make_terminates [of service_container "IString ''service''" empty_record] wf_service_container
  by simp

text \<open>
  The relation of the claim as stated, aliases and constructor parameter names
  alone, is well-founded on the state below, where two factories resolve each
  other: no fuel suffices for \<^verbatim>\<open>make('a')\<close>.
\<close>

lemma after_first_length: "after_first word s = Some rest \<Longrightarrow> length rest + length word \<le> length s"
proof (induction s)
  case Nil
  then show ?case by (simp split: if_splits)
next
  case (Cons ch s)
  show ?case
  proof (cases "take (length word) (ch # s) = word")
    case True
    then have "rest = drop (length word) (ch # s)" using Cons.prems by simp
    moreover have "length word \<le> length (ch # s)" using arg_cong [OF True, of length] by simp
    ultimately show ?thesis by simp
  next
    case False
    then have "after_first word s = Some rest" using Cons.prems by simp
    then show ?thesis using Cons.IH by simp
  qed
qed

lemma split_commas_length: "piece \<in> set (split_commas s) \<Longrightarrow> length piece \<le> length s"
proof (induction s arbitrary: piece)
  case Nil
  then show ?case by simp
next
  case (Cons ch rest)
  show ?case
  proof (cases "split_commas rest")
    case Nil
    then show ?thesis using Cons.prems by simp
  next
    case pieces: (Cons q qs)
    have hq: "length q \<le> Suc (length rest)"
      using Cons.IH [of q] pieces by simp
    have hqs: "length x \<le> Suc (length rest)" if "x \<in> set qs" for x
      using Cons.IH [of x] that pieces by simp
    have "piece = [] \<or> piece = q \<or> piece = ch # q \<or> piece \<in> set qs"
      using Cons.prems pieces by (auto split: if_splits)
    then show ?thesis using hq hqs [of piece] Cons.IH [of q] pieces by auto
  qed
qed

lemma names_shorter: "name \<in> set (getParamNames s) \<Longrightarrow> length name < length s"
proof -
  assume n: "name \<in> set (getParamNames s)"
  then obtain rest where r: "after_first ''constructor'' s = Some rest"
    by (cases "after_first ''constructor'' s") (auto simp: getParamNames_def)
  obtain paren args where d: "dropWhile (\<lambda>ch. ch \<noteq> CHR ''('') rest = paren # args"
    using n r by (cases "dropWhile (\<lambda>ch. ch \<noteq> CHR ''('') rest") (auto simp: getParamNames_def)
  have "name \<in> set (split_commas (takeWhile (\<lambda>ch. ch \<noteq> CHR '')'') (dropWhile is_space args)))"
    using n r d by (auto simp: getParamNames_def Let_def split: if_splits)
  then have "length name \<le> length (takeWhile (\<lambda>ch. ch \<noteq> CHR '')'') (dropWhile is_space args))"
    by (rule split_commas_length)
  also have "\<dots> \<le> length (dropWhile is_space args)" by (rule length_takeWhile_le)
  also have "\<dots> \<le> length args" by (rule length_dropWhile_le)
  also have "\<dots> < length (dropWhile (\<lambda>ch. ch \<noteq> CHR ''('') rest)" using d by simp
  also have "\<dots> \<le> length rest" by (rule length_dropWhile_le)
  also have "\<dots> \<le> length s" using after_first_length [OF r] by simp
  finally show ?thesis .
qed

lemma getConcrete_factory_cycle:
  "getConcrete factory_cycle_container a =
     (if a = IString ''b'' then IFunction make_a else if a = IString ''a'' then IFunction make_b else a)"
  by (simp add: getConcrete_def factory_cycle_container_def bind_def new_container_def)

lemma all_edges_factory_cycle:
  "b \<in> set (all_edges factory_cycle_container a) \<Longrightarrow> length (toString b) < length (toString a)"
proof -
  assume b: "b \<in> set (all_edges factory_cycle_container a)"
  show ?thesis
  proof (cases "a = IString ''a'' \<or> a = IString ''b''")
    case True
    then have "all_edges factory_cycle_container a = []"
      using getConcrete_factory_cycle [of a] by (auto simp: all_edges_def isBuildable_def)
    then show ?thesis using b by simp
  next
    case False
    then have "getConcrete factory_cycle_container a = a"
      using getConcrete_factory_cycle [of a] by simp
    then obtain name where "b = IString name" "name \<in> set (getParamNames (toString a))"
      using b by (auto simp: all_edges_def isBuildable_def Let_def split: if_splits)
    then show ?thesis using names_shorter by simp
  qed
qed

lemma wf_alias_param_rel_factory_cycle: "wf (alias_param_rel factory_cycle_container)"
proof -
  have "(b, a) \<in> measure (\<lambda>k. length (toString k))"
    if "(b, a) \<in> alias_param_rel factory_cycle_container" for b a
    using all_edges_factory_cycle [of b a] that by (simp add: alias_param_rel_def)
  then have "alias_param_rel factory_cycle_container \<subseteq> measure (\<lambda>k. length (toString k))"
    by (intro subrelI)
  then show ?thesis using wf_subset wf_measure by blast
qed

lemma make_diverges_on_factory_cycle:
  "make n factory_cycle_container (IString ''a'') empty_record = None
   \<and> make n factory_cycle_container (IString ''b'') empty_record = None"
proof (induction n)
  case 0
  then show ?case by (simp add: make.simps)
next
  case (Suc n)
  have i: "instances factory_cycle_container (IString ''a'') = None"
    "instances factory_cycle_container (IString ''b'') = None"
    by (simp_all add: factory_cycle_container_def bind_def new_container_def)
  have "inner n factory_cycle_container (IString ''a'') empty_record = None"
    using Suc getConcrete_factory_cycle [of "IString ''a''"]
    by (simp add: inner_def isBuildable_def build_def make_b_def)
  moreover have "inner n factory_cycle_container (IString ''b'') empty_record = None"
    using Suc getConcrete_factory_cycle [of "IString ''b''"]
    by (simp add: inner_def isBuildable_def build_def make_a_def)
  ultimately show ?case
    using make_uncached [OF i(1), of n empty_record] make_uncached [OF i(2), of n empty_record] by simp
qed

theorem make_terminates_counterexample:
  "wf (alias_param_rel factory_cycle_container)
   \<and> (\<forall>n. make n factory_cycle_container (IString ''a'') empty_record = None)"
  using wf_alias_param_rel_factory_cycle make_diverges_on_factory_cycle by simp

text \<open>
  The precondition cannot be dropped: no fuel suffices on the cyclic binding below,
  where a constructor parameter leads back to its class.
\<close>

lemma empty_record_bar: "empty_record ''bar'' = VUndefined"
  by (simp add: empty_record_def object_prototype_keys_def)

lemma make_diverges_on_cycle: "make n cyclic_container (IString ''bar'') empty_record = None"
proof (induction n)
  case 0
  then show ?case by (simp add: make.simps)
next
  case (Suc n)
  have i: "instances cyclic_container (IString ''bar'') = None"
    by (simp add: cyclic_container_def bind_def new_container_def)
  have gc: "getConcrete cyclic_container (IString ''bar'') = IClass Baz"
    by (simp add: getConcrete_def cyclic_container_def bind_def new_container_def)
  have h: "has cyclic_container (IString ''bar'')"
    by (simp add: has_def cyclic_container_def bind_def new_container_def)
  have "dependency (make n) cyclic_container empty_record ''Baz'' ''bar'' 0 = None"
    using Suc h empty_record_bar by (simp add: dependency_def)
  then have "build (make n) cyclic_container (IClass Baz) empty_record = None"
    using isClass_examples(3) names_Baz by (simp add: build_def Baz_def)
  then have "inner n cyclic_container (IString ''bar'') empty_record = None"
    using gc by (simp add: inner_def isBuildable_def)
  then show ?case using make_uncached [OF i, of n empty_record] by simp
qed

text \<open>
  The relation of the claim has every edge of \<open>dep_rel\<close> but those of the factories,
  so on a state in which no factory calls \<^verbatim>\<open>make\<close> the claim holds as stated.
\<close>

lemma edges_subset_all_edges:
  "closure_idents (getConcrete c a) = [] \<Longrightarrow> set (edges c a) \<subseteq> set (all_edges c a)"
  by (auto simp: edges_def all_edges_def Let_def)

lemma make_terminates_without_closures:
  assumes "\<forall>a. closure_idents (getConcrete c a) = []" and "wf (alias_param_rel c)"
  shows "\<exists>n r c'. make n c a p = Some (r, c')"
proof -
  have "dep_rel c \<subseteq> alias_param_rel c"
    using edges_subset_all_edges assms(1) by (auto simp: dep_rel_def alias_param_rel_def)
  then have "wf (dep_rel c)" using assms(2) wf_subset by blast
  then obtain n x where "make n c a p = Some x"
    using make_terminates_aux [of c a] frame_refl [of c] by blast
  then show ?thesis by (cases x) blast
qed

subsection \<open>C2: an identifier the container knows nothing about\<close>

lemma construct_non_function: "\<not> is_function a \<Longrightarrow> construct c a deps = (Inl NotAConstructor, c)"
  by (cases a) simp_all

lemma build_non_function:
  assumes "\<not> is_function a"
  shows "build mk c a p \<noteq> Some (Inr v, c')"
proof -
  have nf: "\<not> (is_function a \<and> \<not> isClass a)" using assms by simp
  show ?thesis
    unfolding build_construct [OF nf]
    by (auto simp: construct_non_function [OF assms] split: option.splits sum.splits)
qed

text \<open>
  For a string or a symbol with no binding and no cached instance, \<^verbatim>\<open>make\<close> never
  returns a value. When its text holds no parameter list after the word
  \<^verbatim>\<open>constructor\<close> (every plain name), the call fails with the TypeError that
  \<^verbatim>\<open>new\<close> raises on a value that is not a constructor, and leaves the state as it
  was.
\<close>

lemma make_unknown_identifier:
  assumes "\<not> is_function a" and "bindings c a = None" and "instances c a = None"
  shows "(getParamNames (toString a) = [] \<longrightarrow> make (Suc n) c a p = Some (Inl NotAConstructor, c))
         \<and> (\<forall>m v c'. make m c a p \<noteq> Some (Inr v, c'))"
proof -
  have gc: "getConcrete c a = a" using assms(2) by (simp add: getConcrete_def)
  have nf: "\<not> (is_function a \<and> \<not> isClass a)" using assms(1) by simp
  have inner: "inner m c a p = build (make m) c a p" for m
    using gc by (simp add: inner_def isBuildable_def)
  have "make (Suc n) c a p = Some (Inl NotAConstructor, c)" if "getParamNames (toString a) = []"
    using that make_uncached [OF assms(3), of n p] inner [of n] build_construct [OF nf, of "make n" c p]
      construct_non_function [OF assms(1)]
    by simp
  moreover have "make m c a p \<noteq> Some (Inr v, c')" for m v c'
  proof (cases m)
    case 0
    then show ?thesis by (simp add: make.simps)
  next
    case (Suc m')
    show ?thesis
    proof
      assume "make m c a p = Some (Inr v, c')"
      then obtain c1 where "inner m' c a p = Some (Inr v, c1)"
        using Suc make_uncached [OF assms(3), of m' p]
        by (auto split: option.splits sum.splits)
      then show False using inner [of m'] build_non_function [OF assms(1)] by simp
    qed
  qed
  ultimately show ?thesis by simp
qed

text \<open>
  C2. \<^verbatim>\<open>new Container().make('logger')\<close>, for a name that is neither bound nor
  registered: the call is rejected with the TypeError that \<^verbatim>\<open>new\<close> raises on a
  string, not with the error of line 115 that names an unresolved parameter. The
  same name as an unbound constructor parameter is rejected with that error.
\<close>

theorem make_unknown_name_is_type_error:
  "make (Suc 0) new_container (IString ''logger'') empty_record = Some (Inl NotAConstructor, new_container)
   \<and> kind NotAConstructor = ''TypeError''
   \<and> dependency (make 0) new_container empty_record ''Service'' ''logger'' 0
       = Some (Inl (MissingDependency ''logger'' 0 ''Service''), new_container)"
  by (simp add: make.simps new_container_def getConcrete_def isBuildable_def build_def
        getParamNames_def dependency_def has_def empty_record_def object_prototype_keys_def)

subsection \<open>C3: the names that build resolves\<close>

lemma make_a_in_two_container:
  "make (Suc 0) two_container (IString ''a'') empty_record = Some (Inr (VRef 0), two_after)"
  using isClass_examples(1) names_Foo
  by (simp add: make.simps two_after_def two_container_def bind_def new_container_def getConcrete_def
        isBuildable_def isShared_def build_def alloc_def Foo_def Let_def)

lemma dependency_cases:
  "dependency mk c ps owner name index =
     (if ps name \<noteq> VUndefined then Some (Inr (ps name), c)
      else if has c (IString name) then mk c (IString name) empty_record
      else Some (Inl (MissingDependency name index owner), c))"
  by (simp add: dependency_def)

lemma two_container_has: "has two_container (IString ''a'')" "has two_container (IString ''b'')"
  "\<not> has two_container (IString '' b'')"
  by (simp_all add: has_def two_container_def bind_def new_container_def)

lemma make_Two_fails:
  assumes "ps ''a'' = VUndefined" and "ps '' b'' = VUndefined"
  shows "make (Suc (Suc 0)) two_container (IClass Two) ps
           = Some (Inl (MissingDependency '' b'' 1 ''Two''), two_after)"
proof -
  have i: "instances two_container (IClass Two) = None"
    by (simp add: two_container_def bind_def new_container_def)
  have gc: "getConcrete two_container (IClass Two) = IClass Two"
    by (simp add: getConcrete_def two_container_def bind_def new_container_def)
  have h1: "\<not> has two_after (IString '' b'')"
    by (simp add: has_def two_after_def two_container_def bind_def new_container_def)
  have d: "dependencies (make (Suc 0)) two_container ps ''Two'' [''a'', '' b''] 0
             = Some (Inl (MissingDependency '' b'' 1 ''Two''), two_after)"
    using assms two_container_has(1) make_a_in_two_container h1 by (simp add: dependency_def)
  have "build (make (Suc 0)) two_container (IClass Two) ps
          = Some (Inl (MissingDependency '' b'' 1 ''Two''), two_after)"
    using d isClass_examples(4) names_Two by (simp add: build_def Two_def)
  then have "inner (Suc 0) two_container (IClass Two) ps
          = Some (Inl (MissingDependency '' b'' 1 ''Two''), two_after)"
    using gc by (simp add: inner_def isBuildable_def)
  then show ?thesis using make_uncached [OF i, of "Suc 0" ps] by simp
qed

text \<open>
  C3. \<^verbatim>\<open>class Two { constructor(a, b) {...} }\<close> has the parameters \<^verbatim>\<open>a\<close> and
  \<^verbatim>\<open>b\<close>; \<^verbatim>\<open>getParamNames\<close> returns \<^verbatim>\<open>"a"\<close> and \<^verbatim>\<open>" b"\<close>, with the space
  that follows the comma. With both names bound, \<^verbatim>\<open>make(Two)\<close> fails on the second
  parameter; with the override \<^verbatim>\<open>{ b: 5 }\<close> it fails in the same way, the override
  unused.
\<close>

theorem second_parameter_is_not_resolved:
  "getParamNames (csrc Two) = [''a'', '' b'']
   \<and> bindings two_container (IString ''b'') = Some \<lparr>conc_value = IClass Bar, conc_shared = False\<rparr>
   \<and> make (Suc (Suc 0)) two_container (IClass Two) empty_record
       = Some (Inl (MissingDependency '' b'' 1 ''Two''), two_after)
   \<and> override_b ''b'' = VNum 5
   \<and> make (Suc (Suc 0)) two_container (IClass Two) override_b
       = Some (Inl (MissingDependency '' b'' 1 ''Two''), two_after)"
proof -
  have e: "empty_record ''a'' = VUndefined" "empty_record '' b'' = VUndefined"
    by (simp_all add: empty_record_def object_prototype_keys_def)
  have o: "override_b ''a'' = VUndefined" "override_b '' b'' = VUndefined" "override_b ''b'' = VNum 5"
    using e by (simp_all add: override_b_def)
  have b: "bindings two_container (IString ''b'') = Some \<lparr>conc_value = IClass Bar, conc_shared = False\<rparr>"
    by (simp add: two_container_def bind_def new_container_def)
  show ?thesis
    using names_Two b make_Two_fails [OF e] make_Two_fails [OF o(1,2)] o(3)
    by simp
qed

subsection \<open>C5 and C9: the cache after a call of make\<close>




lemma make_Baz_shared_bar:
  "make (Suc (Suc 0)) shared_bar_container (IClass Baz) empty_record = Some (Inr (VRef 1), shared_bar_after)"
proof -
  let ?c1 = "shared_bar_container\<lparr>resolved := {IString ''bar''}, instances := [IString ''bar'' \<mapsto> VRef 0],
      heap := [\<lparr>obj_class = ''Bar'', obj_args = []\<rparr>]\<rparr>"
  have a: "make (Suc 0) shared_bar_container (IString ''bar'') empty_record = Some (Inr (VRef 0), ?c1)"
    using isClass_examples(2) names_Bar
    by (simp add: make.simps shared_bar_container_def singleton_def bind_def new_container_def
          getConcrete_def isBuildable_def isShared_def build_def alloc_def Bar_def)
  have h: "has shared_bar_container (IString ''bar'')"
    by (simp add: has_def shared_bar_container_def singleton_def bind_def new_container_def)
  have d: "dependencies (make (Suc 0)) shared_bar_container empty_record ''Baz'' [''bar''] 0
             = Some (Inr [VRef 0], ?c1)"
    using empty_record_bar h a by (simp add: dependency_def)
  have i: "instances shared_bar_container (IClass Baz) = None"
    by (simp add: shared_bar_container_def singleton_def bind_def new_container_def)
  have gc: "getConcrete shared_bar_container (IClass Baz) = IClass Baz"
    by (simp add: getConcrete_def shared_bar_container_def singleton_def bind_def new_container_def)
  have "build (make (Suc 0)) shared_bar_container (IClass Baz) empty_record
          = Some (construct ?c1 (IClass Baz) [VRef 0])"
    using d isClass_examples(3) names_Baz by (simp add: build_def Baz_def)
  then have "inner (Suc 0) shared_bar_container (IClass Baz) empty_record
          = Some (Inr (VRef 1), ?c1\<lparr>heap := [\<lparr>obj_class = ''Bar'', obj_args = []\<rparr>, \<lparr>obj_class = ''Baz'', obj_args = [VRef 0]\<rparr>]\<rparr>)"
    using gc by (simp add: inner_def isBuildable_def alloc_def Baz_def)
  then show ?thesis
    using make_uncached [OF i, of "Suc 0" empty_record]
    by (simp add: store_def isShared_def shared_bar_after_def shared_bar_container_def singleton_def
          bind_def new_container_def insert_commute)
qed



lemma make_success_resolved:
  assumes "instances c a = None" and "make n c a p = Some (Inr v, c')"
  shows "a \<in> resolved c'"
proof (cases n)
  case 0
  then show ?thesis using assms(2) by (simp add: make.simps)
next
  case (Suc m)
  then obtain c1 where "c' = store c1 a v"
    using assms(2) make_uncached [OF assms(1), of m p] by (auto split: option.splits sum.splits)
  then show ?thesis by (simp add: store_fields)
qed




text \<open>
  Why, even then, the entry of the failing identifier itself is promised only for
  classes and factories: a name can be reached again by a nested \<^verbatim>\<open>make\<close>, which
  runs without the overrides of the outer call. Below, the outer
  \<^verbatim>\<open>make('x', overrides)\<close> resolves \<^verbatim>\<open>toString\<close> through the alias to a nested
  \<^verbatim>\<open>make('x')\<close>; the nested call reads both parameters from \<^verbatim>\<open>{}\<close>, where they
  are inherited, builds the object and caches it under \<^verbatim>\<open>'x'\<close>; the outer call
  then fails on \<^verbatim>\<open>valueOf\<close>.
\<close>

lemma failed_make_of_a_name_may_cache_it:
  "map_option (\<lambda>(r, c'). (r, instances c' (IString ''x'')))
     (make (Suc (Suc (Suc 0))) x_container (IString ''x'') hidden_keys)
   = Some (Inl (MissingDependency ''valueOf'' 1 ''X''), Some (VRef 0))"
proof -
  have names: "getParamNames (csrc X) = [''toString'', ''valueOf'']"
    by (simp add: X_def getParamNames_def is_space_def)
  have cl: "isClass (IClass X)" by (simp add: X_def is_space_def)
  have e: "empty_record ''toString'' = VBuiltin ''toString''" "empty_record ''valueOf'' = VBuiltin ''valueOf''"
    by (simp_all add: empty_record_def object_prototype_keys_def)
  let ?c1 = "x_container\<lparr>resolved := {IString ''x''}, instances := [IString ''x'' \<mapsto> VRef 0],
      heap := [\<lparr>obj_class = ''X'', obj_args = [VBuiltin ''toString'', VBuiltin ''valueOf'']\<rparr>]\<rparr>"
  let ?c2 = "?c1\<lparr>resolved := {IString ''toString'', IString ''x''}\<rparr>"
  have inner_x: "make (Suc 0) x_container (IString ''x'') empty_record = Some (Inr (VRef 0), ?c1)"
    using names cl e
    by (simp add: make.simps x_container_def singleton_def bind_def new_container_def getConcrete_def
          isBuildable_def isShared_def build_def dependency_def alloc_def X_def Let_def)
  have via_alias: "make (Suc (Suc 0)) x_container (IString ''toString'') empty_record = Some (Inr (VRef 0), ?c2)"
  proof -
    have i: "instances x_container (IString ''toString'') = None"
      by (simp add: x_container_def singleton_def bind_def new_container_def)
    have "inner (Suc 0) x_container (IString ''toString'') empty_record = Some (Inr (VRef 0), ?c1)"
      using inner_x
      by (simp add: inner_def getConcrete_def isBuildable_def x_container_def singleton_def bind_def
            new_container_def)
    then show ?thesis
      using make_uncached [OF i, of "Suc 0" empty_record]
      by (simp add: store_def isShared_def x_container_def singleton_def bind_def new_container_def)
  qed
  have h: "has x_container (IString ''toString'')" "\<not> has ?c2 (IString ''valueOf'')"
    by (simp_all add: has_def x_container_def singleton_def bind_def new_container_def)
  have d: "dependencies (make (Suc (Suc 0))) x_container hidden_keys ''X'' [''toString'', ''valueOf''] 0
             = Some (Inl (MissingDependency ''valueOf'' 1 ''X''), ?c2)"
    using h via_alias by (simp add: dependency_def hidden_keys_def)
  have i: "instances x_container (IString ''x'') = None"
    by (simp add: x_container_def singleton_def bind_def new_container_def)
  have gc: "getConcrete x_container (IString ''x'') = IClass X"
    by (simp add: getConcrete_def x_container_def singleton_def bind_def new_container_def)
  have "build (make (Suc (Suc 0))) x_container (IClass X) hidden_keys
          = Some (Inl (MissingDependency ''valueOf'' 1 ''X''), ?c2)"
    using d cl names by (simp add: build_def X_def)
  then have "inner (Suc (Suc 0)) x_container (IString ''x'') hidden_keys
          = Some (Inl (MissingDependency ''valueOf'' 1 ''X''), ?c2)"
    using gc by (simp add: inner_def isBuildable_def)
  then show ?thesis using make_uncached [OF i, of "Suc (Suc 0)" hidden_keys] by simp
qed

text \<open>
  A closure may pass a class to \<^verbatim>\<open>make\<close>, and then a failed call may leave an entry
  under a class, its own included. Below, the first parameter of the shared class
  \<^verbatim>\<open>X\<close> is bound to the closure \<^verbatim>\<open>() => container.make(X)\<close>; the outer
  \<^verbatim>\<open>make(X, overrides)\<close> resolves the parameter through the closure to a nested
  \<^verbatim>\<open>make(X)\<close>, which builds the object and caches it under \<^verbatim>\<open>X\<close>; the outer call
  then fails on \<^verbatim>\<open>valueOf\<close>.
\<close>

lemma failed_make_of_a_class_may_cache_it:
  "map_option (\<lambda>(r, c'). (r, instances c' (IClass X)))
     (make (Suc (Suc (Suc 0))) closure_container (IClass X) hidden_keys)
   = Some (Inl (MissingDependency ''valueOf'' 1 ''X''), Some (VRef 0))"
proof -
  have names: "getParamNames (csrc X) = [''toString'', ''valueOf'']"
    by (simp add: X_def getParamNames_def is_space_def)
  have cl: "isClass (IClass X)" by (simp add: X_def is_space_def)
  have e: "empty_record ''toString'' = VBuiltin ''toString''" "empty_record ''valueOf'' = VBuiltin ''valueOf''"
    by (simp_all add: empty_record_def object_prototype_keys_def)
  let ?c1 = "closure_container\<lparr>resolved := {IClass X}, instances := [IClass X \<mapsto> VRef 0],
      heap := [\<lparr>obj_class = ''X'', obj_args = [VBuiltin ''toString'', VBuiltin ''valueOf'']\<rparr>]\<rparr>"
  let ?c2 = "?c1\<lparr>resolved := {IString ''toString'', IClass X}\<rparr>"
  have inner_x: "make (Suc 0) closure_container (IClass X) empty_record = Some (Inr (VRef 0), ?c1)"
    using names cl e
    by (simp add: make.simps closure_container_def singleton_def bind_def new_container_def getConcrete_def
          isBuildable_def isShared_def build_def dependency_def alloc_def X_def Let_def)
  have via_closure: "make (Suc (Suc 0)) closure_container (IString ''toString'') empty_record = Some (Inr (VRef 0), ?c2)"
  proof -
    have i: "instances closure_container (IString ''toString'') = None"
      by (simp add: closure_container_def singleton_def bind_def new_container_def)
    have "inner (Suc 0) closure_container (IString ''toString'') empty_record = Some (Inr (VRef 0), ?c1)"
      using inner_x
      by (simp add: inner_def getConcrete_def isBuildable_def build_def make_X_def closure_container_def
            singleton_def bind_def new_container_def)
    then show ?thesis
      using make_uncached [OF i, of "Suc 0" empty_record]
      by (simp add: store_def isShared_def closure_container_def singleton_def bind_def new_container_def)
  qed
  have h: "has closure_container (IString ''toString'')" "\<not> has ?c2 (IString ''valueOf'')"
    by (simp_all add: has_def closure_container_def singleton_def bind_def new_container_def)
  have d: "dependencies (make (Suc (Suc 0))) closure_container hidden_keys ''X'' [''toString'', ''valueOf''] 0
             = Some (Inl (MissingDependency ''valueOf'' 1 ''X''), ?c2)"
    using h via_closure by (simp add: dependency_def hidden_keys_def)
  have i: "instances closure_container (IClass X) = None"
    by (simp add: closure_container_def singleton_def bind_def new_container_def)
  have gc: "getConcrete closure_container (IClass X) = IClass X"
    by (simp add: getConcrete_def closure_container_def singleton_def bind_def new_container_def)
  have "build (make (Suc (Suc 0))) closure_container (IClass X) hidden_keys
          = Some (Inl (MissingDependency ''valueOf'' 1 ''X''), ?c2)"
    using d cl names by (simp add: build_def X_def)
  then have "inner (Suc (Suc 0)) closure_container (IClass X) hidden_keys
          = Some (Inl (MissingDependency ''valueOf'' 1 ''X''), ?c2)"
    using gc by (simp add: inner_def isBuildable_def)
  then show ?thesis using make_uncached [OF i, of "Suc (Suc 0)" hidden_keys] by simp
qed

text \<open>
  C9, as amended. A successful \<^verbatim>\<open>make\<close> of an identifier that is not bound shared
  and has no cached instance leaves the bindings as they were, leaves the identifier
  without a cache entry and every existing entry as it was; an entry that it adds
  belongs to an identifier bound shared (a shared dependency resolved on the way).
  The resolved set grows and holds the identifier, and \<^verbatim>\<open>has\<close> answers for it as
  before.
\<close>

theorem transient_make_frame:
  assumes "\<not> isShared c a" and "instances c a = None" and "make n c a p = Some (Inr v, c')"
  shows "bindings c' = bindings c \<and> instances c' a = None
         \<and> (\<forall>k w. instances c k = Some w \<longrightarrow> instances c' k = Some w)
         \<and> (\<forall>k. instances c' k \<noteq> instances c k \<longrightarrow> isShared c k)
         \<and> resolved c \<subseteq> resolved c' \<and> a \<in> resolved c'
         \<and> has c' a = has c a"
proof -
  have fr: "frame c c'" using make_leaves_plain_frame [OF assms(3)] .
  then have b: "bindings c' = bindings c" and rs: "resolved c \<subseteq> resolved c'"
    and ch: "\<And>k. instances c' k \<noteq> instances c k \<Longrightarrow> instances c k = None \<and> isShared c k"
    by (auto simp: frame_def)
  have a: "instances c' a = None"
    using ch [of a] assms(1,2) by (cases "instances c' a = instances c a") auto
  have keep: "instances c' k = Some w" if "instances c k = Some w" for k w
    using ch [of k] that by (cases "instances c' k = instances c k") auto
  show ?thesis
    using b a keep ch rs make_success_resolved [OF assms(2,3)] has_frame [OF fr, of a] by blast
qed

theorem transient_make_frame_witness:
  "\<not> isShared shared_bar_container (IClass Baz) \<and> instances shared_bar_container (IClass Baz) = None
   \<and> make (Suc (Suc 0)) shared_bar_container (IClass Baz) empty_record = Some (Inr (VRef 1), shared_bar_after)
   \<and> bindings shared_bar_after = bindings shared_bar_container
   \<and> instances shared_bar_after (IClass Baz) = None
   \<and> IClass Baz \<in> resolved shared_bar_after
   \<and> has shared_bar_after (IClass Baz) = has shared_bar_container (IClass Baz)"
proof -
  have s: "\<not> isShared shared_bar_container (IClass Baz)"
    by (simp add: isShared_def shared_bar_container_def singleton_def bind_def new_container_def)
  have i: "instances shared_bar_container (IClass Baz) = None"
    by (simp add: shared_bar_container_def singleton_def bind_def new_container_def)
  show ?thesis
    using transient_make_frame [OF s i make_Baz_shared_bar] s i make_Baz_shared_bar by simp
qed

text \<open>
  The successful \<^verbatim>\<open>make(Baz)\<close> of the transient class \<^verbatim>\<open>Baz\<close> has added the cache
  entry of its shared dependency \<^verbatim>\<open>'bar'\<close>, and the resolved set has gained
  \<^verbatim>\<open>'bar'\<close> besides \<^verbatim>\<open>Baz\<close>.
\<close>

theorem transient_make_frame_counterexample:
  "\<not> isShared shared_bar_container (IClass Baz) \<and> instances shared_bar_container (IClass Baz) = None
   \<and> make (Suc (Suc 0)) shared_bar_container (IClass Baz) empty_record = Some (Inr (VRef 1), shared_bar_after)
   \<and> instances shared_bar_container (IString ''bar'') = None
   \<and> instances shared_bar_after (IString ''bar'') = Some (VRef 0)
   \<and> IString ''bar'' \<in> resolved shared_bar_after"
  using make_Baz_shared_bar
  by (simp add: isShared_def shared_bar_after_def shared_bar_container_def singleton_def bind_def
        new_container_def)

subsection \<open>C7: shared and transient bindings\<close>

text \<open>A call of \<open>make\<close> leaves a transient identifier transient.\<close>

lemma transient_frame: "frame c c' \<Longrightarrow> transient k c a \<Longrightarrow> transient k c' a"
proof (induction k arbitrary: a)
  case 0
  then show ?case by simp
next
  case (Suc k)
  have na: "instances c a = None" and ns: "\<not> isShared c a" using Suc.prems(2) by simp_all
  have b: "bindings c' = bindings c" using Suc.prems(1) by (simp add: frame_def)
  have i: "instances c' a = None"
    using Suc.prems(1) na ns by (cases "instances c' a = instances c a") (auto simp: frame_def)
  have sh: "isShared c' a = isShared c a" using isShared_bindings [OF b] .
  have g: "getConcrete c' a = getConcrete c a" using getConcrete_frame [OF Suc.prems(1)] .
  have ih: "transient k c x \<Longrightarrow> transient k c' x" for x using Suc.IH [OF Suc.prems(1)] .
  show ?case
    using Suc.prems(2) i sh g ns ih
    by (auto simp: Let_def split: ident.splits fn_body.splits if_splits)
qed

text \<open>What \<open>make\<close> returns for a transient identifier is an object that the call created.\<close>

lemma make_transient_new:
  "transient k c a \<Longrightarrow> make n c a p = Some (Inr v, c')
   \<Longrightarrow> \<exists>i. v = VRef i \<and> length (heap c) \<le> i \<and> i < length (heap c')"
proof (induction k arbitrary: a n p v c')
  case 0
  then show ?case by simp
next
  case (Suc k)
  have un: "instances c a = None" using Suc.prems(1) by simp
  obtain m where n: "n = Suc m" using Suc.prems(2) by (cases n) (simp_all add: make.simps)
  obtain c1 where i: "inner m c a p = Some (Inr v, c1)" and c': "c' = store c1 a v"
    using Suc.prems(2) n make_uncached [OF un, of m p] by (auto split: option.splits sum.splits)
  let ?concrete = "getConcrete c a"
  have "\<exists>i. v = VRef i \<and> length (heap c) \<le> i \<and> i < length (heap c1)"
  proof (cases "isBuildable ?concrete a")
    case False
    then have t: "transient k c ?concrete" using Suc.prems(1) by (simp add: Let_def)
    have "make m c ?concrete empty_record = Some (Inr v, c1)" using i False by (simp add: inner_def)
    then show ?thesis using Suc.IH [OF t] by simp
  next
    case True
    then have b: "build (make m) c ?concrete p = Some (Inr v, c1)" using i by (simp add: inner_def)
    show ?thesis
    proof (cases ?concrete)
      case (IClass cl)
      show ?thesis
      proof (cases "isClass ?concrete")
        case False
        then have "build (make m) c ?concrete p = invoke (make m) c ?concrete"
          using IClass build_invoke [of ?concrete "make m" c p] by simp
        then show ?thesis using b IClass by simp
      next
        case cls: True
        then have nf: "\<not> (is_function ?concrete \<and> \<not> isClass ?concrete)" by simp
        obtain deps c0 where
          d: "dependencies (make m) c p (name_of ?concrete) (getParamNames (toString ?concrete)) 0 = Some (Inr deps, c0)"
          and k: "construct c0 ?concrete deps = (Inr v, c1)"
          using b build_construct [OF nf, of "make m" c p] by (auto split: option.splits sum.splits)
        have "frame c c0" using dependencies_frame [OF make_calls_frame d] .
        then have "length (heap c) \<le> length (heap c0)" by (simp add: frame_def)
        moreover have "v = VRef (length (heap c0)) \<and> length (heap c1) = Suc (length (heap c0))"
          using k IClass by (auto simp: alloc_def split: option.splits)
        ultimately show ?thesis by simp
      qed
    next
      case (IFunction f)
      then have fn: "is_function ?concrete \<and> \<not> isClass ?concrete" by simp
      have inv: "invoke (make m) c ?concrete = Some (Inr v, c1)"
        using b build_invoke [OF fn, of "make m" c p] by simp
      show ?thesis
      proof (cases "fbody f")
        case (Returns w)
        then show ?thesis using Suc.prems(1) True IFunction by (simp add: Let_def)
      next
        case (ReturnsNew name)
        then have "v = VRef (length (heap c)) \<and> length (heap c1) = Suc (length (heap c))"
          using inv IFunction by (auto simp: alloc_def)
        then show ?thesis by simp
      next
        case (Throws e)
        then show ?thesis using Suc.prems(1) True IFunction by (simp add: Let_def)
      next
        case (Makes x)
        then have t: "transient k c x"
          using Suc.prems(1) True IFunction by (simp add: Let_def)
        have "make m c x empty_record = Some (Inr v, c1)"
          using inv IFunction Makes by simp
        then show ?thesis using Suc.IH [OF t] by simp
      next
        case (MakesNew name xs)
        obtain args c0 where ma: "make_all (make m) c xs = Some (Inr args, c0)"
          and al: "alloc c0 name args = (Inr v, c1)"
          using inv IFunction MakesNew by (auto split: option.splits sum.splits)
        have "frame c c0" using make_all_frame [OF make_calls_frame ma] .
        then have "length (heap c) \<le> length (heap c0)" by (simp add: frame_def)
        moreover have "v = VRef (length (heap c0)) \<and> length (heap c1) = Suc (length (heap c0))"
          using al by (auto simp: alloc_def)
        ultimately show ?thesis by simp
      qed
    next
      case (IString s)
      then show ?thesis using Suc.prems(1) True by (simp add: Let_def)
    next
      case (ISymbol j d)
      then show ?thesis using Suc.prems(1) True by (simp add: Let_def)
    qed
  qed
  then show ?case using c' by (simp add: store_fields)
qed

lemma make_success_cached:
  assumes "isShared c a" and "make n c a p = Some (Inr v, c')"
  shows "instances c' a = Some v"
proof (cases "instances c a")
  case (Some inst)
  then show ?thesis using assms(2) by (cases n) (simp_all add: make.simps)
next
  case None
  show ?thesis
  proof (cases n)
    case 0
    then show ?thesis using assms(2) by (simp add: make.simps)
  next
    case (Suc m)
    obtain c1 where i: "inner m c a p = Some (Inr v, c1)" and c': "c' = store c1 a v"
      using assms(2) Suc make_uncached [OF None, of m p] by (auto split: option.splits sum.splits)
    have "frame c c1"
    proof (cases "isBuildable (getConcrete c a) a")
      case True
      then have "build (make m) c (getConcrete c a) p = Some (Inr v, c1)" using i by (simp add: inner_def)
      then show ?thesis using build_frame [OF make_calls_frame] by simp
    next
      case False
      then have "make m c (getConcrete c a) empty_record = Some (Inr v, c1)" using i by (simp add: inner_def)
      then show ?thesis by (rule make_leaves_plain_frame)
    qed
    then have "isShared c1 a" using assms(1) isShared_bindings [of c1 c a] by (simp add: frame_def)
    then show ?thesis using c' by (simp add: store_fields)
  qed
qed

text \<open>
  C7, as amended. When a \<^verbatim>\<open>make\<close> of an identifier bound shared has returned, the
  next \<^verbatim>\<open>make\<close> of it, with any overrides, returns the identical value and leaves
  the state as it is. For a binding that is not shared, with no cached instance under
  its identifier and a producer that does not itself return a shared value (the
  identifier is \<open>transient\<close>: its producer is a class, a factory that creates an
  object, or an alias of, or a factory that forwards to, such an identifier), two
  successive calls of \<^verbatim>\<open>make\<close> that return, return different objects.
\<close>

theorem shared_identical_transient_distinct:
  "(bindings c a = Some b \<and> conc_shared b \<and> make n c a p = Some (Inr v, c1)
      \<longrightarrow> make (Suc m) c1 a p' = Some (Inr v, c1))
   \<and> (bindings c a = Some b \<and> \<not> conc_shared b \<and> transient k c a
        \<and> make n c a p = Some (Inr v1, c1) \<and> make m c1 a p' = Some (Inr v2, c2)
      \<longrightarrow> v1 \<noteq> v2)"
proof (intro conjI impI)
  assume h: "bindings c a = Some b \<and> conc_shared b \<and> make n c a p = Some (Inr v, c1)"
  then have "isShared c a" by (simp add: isShared_def)
  then have "instances c1 a = Some v" using make_success_cached h by blast
  then show "make (Suc m) c1 a p' = Some (Inr v, c1)" by (rule make_cached)
next
  assume h: "bindings c a = Some b \<and> \<not> conc_shared b \<and> transient k c a
        \<and> make n c a p = Some (Inr v1, c1) \<and> make m c1 a p' = Some (Inr v2, c2)"
  then have m1: "make n c a p = Some (Inr v1, c1)" and m2: "make m c1 a p' = Some (Inr v2, c2)"
    and t: "transient k c a"
    by simp_all
  have fr: "frame c c1" using make_leaves_plain_frame [OF m1] .
  have t1: "transient k c1 a" using transient_frame [OF fr t] .
  obtain i where i: "v1 = VRef i" "i < length (heap c1)"
    using make_transient_new [OF t m1] by auto
  obtain j where j: "v2 = VRef j" "length (heap c1) \<le> j"
    using make_transient_new [OF t1 m2] by auto
  show "v1 \<noteq> v2" using i j by simp
qed

lemma make_singleton_Bar:
  "make (Suc 0) singleton_container (IClass Bar) empty_record = Some (Inr (VRef 0), singleton_after)"
  using isClass_examples(2) names_Bar
  by (simp add: make.simps singleton_after_def singleton_container_def singleton_def bind_def
        new_container_def getConcrete_def isBuildable_def isShared_def build_def alloc_def Bar_def Let_def)

lemma make_transient_Foo:
  "make (Suc 0) transient_container (IClass Foo) empty_record = Some (Inr (VRef 0), transient_after (Suc 0))"
  "make (Suc 0) (transient_after (Suc 0)) (IClass Foo) empty_record = Some (Inr (VRef 1), transient_after (Suc (Suc 0)))"
  using isClass_examples(1) names_Foo
  by (simp_all add: make.simps transient_after_def transient_container_def bind_def
        new_container_def getConcrete_def isBuildable_def isShared_def build_def alloc_def Foo_def Let_def)

lemma make_alias_svc:
  "make (Suc (Suc 0)) alias_container (IString ''svc'') empty_record = Some (Inr (VRef 0), alias_after (Suc 0))"
  "make (Suc (Suc 0)) (alias_after (Suc 0)) (IString ''svc'') empty_record
     = Some (Inr (VRef 1), alias_after (Suc (Suc 0)))"
  using isClass_examples(1) names_Foo
  by (simp_all add: make.simps alias_after_def alias_container_def bind_def
        new_container_def getConcrete_def isBuildable_def isShared_def build_def alloc_def Foo_def Let_def
        insert_commute)

lemma transient_examples:
  "transient (Suc 0) transient_container (IClass Foo)"
  "transient (Suc (Suc 0)) alias_container (IString ''svc'')"
  by (simp_all add: transient_container_def alias_container_def bind_def new_container_def
        getConcrete_def isBuildable_def isShared_def Let_def)

theorem shared_identical_transient_distinct_witness:
  "bindings singleton_container (IClass Bar) = Some \<lparr>conc_value = IClass Bar, conc_shared = True\<rparr>
   \<and> make (Suc 0) singleton_container (IClass Bar) empty_record = Some (Inr (VRef 0), singleton_after)
   \<and> make (Suc 0) singleton_after (IClass Bar) override_b = Some (Inr (VRef 0), singleton_after)
   \<and> bindings transient_container (IClass Foo) = Some \<lparr>conc_value = IClass Foo, conc_shared = False\<rparr>
   \<and> transient (Suc 0) transient_container (IClass Foo)
   \<and> make (Suc 0) transient_container (IClass Foo) empty_record = Some (Inr (VRef 0), transient_after (Suc 0))
   \<and> make (Suc 0) (transient_after (Suc 0)) (IClass Foo) empty_record
        = Some (Inr (VRef 1), transient_after (Suc (Suc 0)))
   \<and> bindings alias_container (IString ''svc'') = Some \<lparr>conc_value = IString ''impl'', conc_shared = False\<rparr>
   \<and> transient (Suc (Suc 0)) alias_container (IString ''svc'')
   \<and> make (Suc (Suc 0)) alias_container (IString ''svc'') empty_record = Some (Inr (VRef 0), alias_after (Suc 0))
   \<and> make (Suc (Suc 0)) (alias_after (Suc 0)) (IString ''svc'') empty_record
        = Some (Inr (VRef 1), alias_after (Suc (Suc 0)))
   \<and> VRef 0 \<noteq> VRef 1"
proof -
  have b1: "bindings singleton_container (IClass Bar) = Some \<lparr>conc_value = IClass Bar, conc_shared = True\<rparr>"
    by (simp add: singleton_container_def singleton_def bind_def new_container_def)
  have b2: "bindings transient_container (IClass Foo) = Some \<lparr>conc_value = IClass Foo, conc_shared = False\<rparr>"
    by (simp add: transient_container_def bind_def new_container_def)
  have b3: "bindings alias_container (IString ''svc'') = Some \<lparr>conc_value = IString ''impl'', conc_shared = False\<rparr>"
    by (simp add: alias_container_def bind_def new_container_def)
  have s: "make (Suc 0) singleton_after (IClass Bar) override_b = Some (Inr (VRef 0), singleton_after)"
    using shared_identical_transient_distinct
      [where c = singleton_container and a = "IClass Bar"
         and b = "\<lparr>conc_value = IClass Bar, conc_shared = True\<rparr>"
         and n = "Suc 0" and p = empty_record and v = "VRef 0" and ?c1.0 = singleton_after
         and m = 0 and p' = override_b]
      b1 make_singleton_Bar by simp
  have t: "VRef 0 \<noteq> VRef 1"
    using shared_identical_transient_distinct
      [where c = alias_container and a = "IString ''svc''"
         and b = "\<lparr>conc_value = IString ''impl'', conc_shared = False\<rparr>" and k = "Suc (Suc 0)"
         and n = "Suc (Suc 0)" and p = empty_record and ?v1.0 = "VRef 0" and ?c1.0 = "alias_after (Suc 0)"
         and m = "Suc (Suc 0)" and p' = empty_record and ?v2.0 = "VRef 1"
         and ?c2.0 = "alias_after (Suc (Suc 0))"]
      b3 transient_examples(2) make_alias_svc by simp
  show ?thesis
    using b1 b2 b3 s t transient_examples make_singleton_Bar make_transient_Foo make_alias_svc by simp
qed

text \<open>
  With a transient binding and a registered instance under the same identifier, a
  call of \<^verbatim>\<open>make\<close> returns the registered object and leaves the state as it is, so
  the next call returns the same object again: the two are not distinct, though the
  producer \<^verbatim>\<open>Foo\<close> is a class, which yields a new object whenever it is built.
\<close>

theorem transient_not_distinct_counterexample:
  "bindings registered_container (IClass Foo) = Some \<lparr>conc_value = IClass Foo, conc_shared = False\<rparr>
   \<and> make (Suc 0) registered_container (IClass Foo) empty_record = Some (Inr (VRef 0), registered_container)
   \<and> make (Suc 0) registered_container (IClass Foo) override_b = Some (Inr (VRef 0), registered_container)"
  by (simp add: make.simps registered_container_def instance_reg_def transient_container_def bind_def
        new_container_def)

subsection \<open>C6: a cache entry stays\<close>

lemma frame_keeps_entry: "frame c c' \<Longrightarrow> instances c k = Some v \<Longrightarrow> instances c' k = Some v"
proof -
  assume "frame c c'" and k: "instances c k = Some v"
  then have "\<forall>k. instances c' k \<noteq> instances c k \<longrightarrow> instances c k = None \<and> isShared c k"
    by (simp add: frame_def)
  then have "instances c' k \<noteq> instances c k \<longrightarrow> instances c k = None" by blast
  then show ?thesis using k by (cases "instances c' k = instances c k") simp_all
qed

text \<open>
  One operation: an entry that exists when \<^verbatim>\<open>bind\<close>, \<^verbatim>\<open>singleton\<close>, \<^verbatim>\<open>make\<close> (on any
  identifier, returning or throwing) or \<^verbatim>\<open>instance\<close> on another identifier begins
  is the same when the operation ends.
\<close>

lemma apply_op_keeps_entry:
  assumes "instances c a = Some v" and "\<forall>w. x \<noteq> Instance a w" and "apply_op n c x = Some c'"
  shows "instances c' a = Some v"
proof (cases x)
  case (Bind abstract concrete shared)
  then show ?thesis using assms by (auto simp: bind_def)
next
  case (Singleton abstract concrete)
  then show ?thesis using assms by (auto simp: singleton_def bind_def)
next
  case (Instance abstract inst)
  then have "abstract \<noteq> a" using assms(2) by auto
  then show ?thesis using assms Instance by (auto simp: instance_reg_def)
next
  case (Make abstract parameters)
  then obtain r where m: "make n c abstract parameters = Some (r, c')" using assms(3) by auto
  have "frame c c'" using make_leaves_plain_frame [OF m] .
  then show ?thesis using assms(1) by (rule frame_keeps_entry)
qed

lemma run_ops_keeps_entry:
  "instances c a = Some v \<Longrightarrow> \<forall>w. Instance a w \<notin> set ops \<Longrightarrow> run_ops n c ops = Some c'
   \<Longrightarrow> instances c' a = Some v"
proof (induction ops arbitrary: c)
  case Nil
  then show ?case by simp
next
  case (Cons x xs)
  obtain c1 where a: "apply_op n c x = Some c1" and r: "run_ops n c1 xs = Some c'"
    using Cons.prems(3) by (auto split: option.splits)
  have "\<forall>w. x \<noteq> Instance a w" using Cons.prems(2) by auto
  then have "instances c1 a = Some v" using apply_op_keeps_entry [OF Cons.prems(1) _ a] by simp
  moreover have "\<forall>w. Instance a w \<notin> set xs" using Cons.prems(2) by auto
  ultimately show ?case using Cons.IH r by blast
qed

text \<open>
  C6, as amended. An operation leaves a cache entry behind in two ways: a \<^verbatim>\<open>make\<close>
  of an identifier bound shared that returns, and \<^verbatim>\<open>instance\<close>. A cache entry that
  exists when an operation of the container begins is the same after any sequence
  of \<^verbatim>\<open>bind\<close>, \<^verbatim>\<open>singleton\<close> and \<^verbatim>\<open>make\<close> calls on any identifiers (returning
  or throwing) and of \<^verbatim>\<open>instance\<close> calls on other identifiers; a \<^verbatim>\<open>make\<close> of the
  identifier that begins then returns the value of the entry, with any overrides,
  and leaves the whole state, the object store included, as it is. Of the
  operations, only \<^verbatim>\<open>instance\<close> on the same identifier replaces such an entry.
\<close>

theorem cached_entry_is_kept:
  "(isShared s a \<and> make k s a q = Some (Inr v, c) \<longrightarrow> instances c a = Some v)
   \<and> instances (instance_reg s a v) a = Some v
   \<and> (instances c a = Some v \<and> (\<forall>w. Instance a w \<notin> set ops) \<and> run_ops n c ops = Some c'
        \<longrightarrow> instances c' a = Some v \<and> make (Suc m) c' a p = Some (Inr v, c'))"
proof -
  have 1: "instances c a = Some v" if "isShared s a" "make k s a q = Some (Inr v, c)"
    using make_success_cached [OF that] .
  have 2: "instances (instance_reg s a v) a = Some v"
    by (simp add: instance_reg_def)
  have 3: "instances c' a = Some v \<and> make (Suc m) c' a p = Some (Inr v, c')"
    if "instances c a = Some v" "\<forall>w. Instance a w \<notin> set ops" "run_ops n c ops = Some c'"
  proof -
    have "instances c' a = Some v" using run_ops_keeps_entry [OF that] .
    then show ?thesis using make_cached by simp
  qed
  show ?thesis using 1 2 3 by (intro conjI impI) simp_all
qed

theorem cached_entry_is_kept_witness:
  "isShared singleton_container (IClass Bar)
   \<and> make (Suc 0) singleton_container (IClass Bar) empty_record = Some (Inr (VRef 0), singleton_after)
   \<and> instances singleton_after (IClass Bar) = Some (VRef 0)
   \<and> (\<exists>c'. run_ops (Suc (Suc 0)) singleton_after
              [Bind (IClass Bar) (IClass Foo) False, Make (IClass Foo) empty_record,
               Instance (IString ''bar'') (VNum 1), Make (IString ''logger'') empty_record] = Some c'
          \<and> instances c' (IClass Bar) = Some (VRef 0)
          \<and> make (Suc 0) c' (IClass Bar) override_b = Some (Inr (VRef 0), c'))"
proof -
  let ?ops = "[Bind (IClass Bar) (IClass Foo) False, Make (IClass Foo) empty_record,
         Instance (IString ''bar'') (VNum 1), Make (IString ''logger'') empty_record]"
  have s: "isShared singleton_container (IClass Bar)"
    by (simp add: isShared_def singleton_container_def singleton_def bind_def new_container_def)
  have o: "\<forall>w. Instance (IClass Bar) w \<notin> set ?ops" by simp
  have "\<exists>c'. run_ops (Suc (Suc 0)) singleton_after ?ops = Some c'"
    using isClass_examples(1) names_Foo
    by (simp add: make.simps singleton_after_def singleton_container_def singleton_def bind_def
        instance_reg_def new_container_def getConcrete_def isBuildable_def isShared_def build_def
        alloc_def Foo_def getParamNames_def Let_def)
  then obtain c' where r: "run_ops (Suc (Suc 0)) singleton_after ?ops = Some c'" by blast
  note t = cached_entry_is_kept
    [where s = singleton_container and a = "IClass Bar" and k = "Suc 0" and q = empty_record
       and v = "VRef 0" and c = singleton_after and ops = ?ops and n = "Suc (Suc 0)" and c' = c'
       and m = 0 and p = override_b]
  have i: "instances singleton_after (IClass Bar) = Some (VRef 0)"
    using t s make_singleton_Bar by simp
  have "instances c' (IClass Bar) = Some (VRef 0)
        \<and> make (Suc 0) c' (IClass Bar) override_b = Some (Inr (VRef 0), c')"
    using t i o r by simp
  then show ?thesis using s make_singleton_Bar i r by blast
qed

text \<open>
  \<^verbatim>\<open>instance(Foo, a); instance(Foo, b); make(Foo)\<close>: the cache held the first object,
  and the \<^verbatim>\<open>make\<close> that follows the second registration returns the second.
\<close>

theorem cached_entry_replaced_counterexample:
  "instances (instance_reg new_container (IClass Foo) (VRef 0)) (IClass Foo) = Some (VRef 0)
   \<and> run_ops 0 (instance_reg new_container (IClass Foo) (VRef 0)) [Instance (IClass Foo) (VRef 1)]
       = Some (instance_reg (instance_reg new_container (IClass Foo) (VRef 0)) (IClass Foo) (VRef 1))
   \<and> make (Suc 0) (instance_reg (instance_reg new_container (IClass Foo) (VRef 0)) (IClass Foo) (VRef 1))
        (IClass Foo) empty_record
       = Some (Inr (VRef 1), instance_reg (instance_reg new_container (IClass Foo) (VRef 0)) (IClass Foo) (VRef 1))"
  by (simp add: make.simps instance_reg_def new_container_def)

text \<open>
  An entry that a nested \<^verbatim>\<open>make\<close> stores while an outer \<^verbatim>\<open>make\<close> of the same
  identifier is still running did not exist when the outer call began, and the
  outer call stores its own object over it when it returns (line 144). With
  \<^verbatim>\<open>singleton('toString', Y)\<close>, the call \<^verbatim>\<open>make('toString', { toString: undefined })\<close>
  resolves the parameter by a nested \<^verbatim>\<open>make('toString')\<close>, which reads the
  parameter from \<^verbatim>\<open>{}\<close>, where it is inherited, and builds and caches a first
  object; the outer call builds a second object around the first, returns it and
  caches it in place of the first. Two objects of the class exist, under a binding
  that \<^verbatim>\<open>singleton\<close> registered; every later \<^verbatim>\<open>make\<close> returns the second.
\<close>

lemma nested_entry_is_overwritten:
  "make (Suc 0) y_container (IString ''toString'') empty_record = Some (Inr (VRef 0), y_nested)
   \<and> instances y_nested (IString ''toString'') = Some (VRef 0)
   \<and> make (Suc (Suc 0)) y_container (IString ''toString'') hidden_toString = Some (Inr (VRef 1), y_after)
   \<and> instances y_after (IString ''toString'') = Some (VRef 1)
   \<and> make (Suc 0) y_after (IString ''toString'') empty_record = Some (Inr (VRef 1), y_after)"
proof -
  have names: "getParamNames (csrc Y) = [''toString'']"
    by (simp add: Y_def getParamNames_def is_space_def)
  have cl: "isClass (IClass Y)" by (simp add: Y_def is_space_def)
  have e: "empty_record ''toString'' = VBuiltin ''toString''"
    by (simp add: empty_record_def object_prototype_keys_def)
  have nested: "make (Suc 0) y_container (IString ''toString'') empty_record = Some (Inr (VRef 0), y_nested)"
    using names cl e
    by (simp add: make.simps y_nested_def y_container_def singleton_def bind_def new_container_def
          getConcrete_def isBuildable_def isShared_def build_def dependency_def alloc_def Y_def Let_def)
  have h: "has y_container (IString ''toString'')"
    by (simp add: has_def y_container_def singleton_def bind_def new_container_def)
  have d: "dependencies (make (Suc 0)) y_container hidden_toString ''Y'' [''toString''] 0
             = Some (Inr [VRef 0], y_nested)"
    using h nested by (simp add: dependency_def hidden_toString_def)
  have i: "instances y_container (IString ''toString'') = None"
    by (simp add: y_container_def singleton_def bind_def new_container_def)
  have gc: "getConcrete y_container (IString ''toString'') = IClass Y"
    by (simp add: getConcrete_def y_container_def singleton_def bind_def new_container_def)
  have "build (make (Suc 0)) y_container (IClass Y) hidden_toString
          = Some (construct y_nested (IClass Y) [VRef 0])"
    using d cl names by (simp add: build_def Y_def)
  then have "inner (Suc 0) y_container (IString ''toString'') hidden_toString
          = Some (Inr (VRef 1), y_nested\<lparr>heap := heap y_nested @ [\<lparr>obj_class = ''Y'', obj_args = [VRef 0]\<rparr>]\<rparr>)"
    using gc by (simp add: inner_def isBuildable_def alloc_def Y_def y_nested_def)
  then have outer: "make (Suc (Suc 0)) y_container (IString ''toString'') hidden_toString
          = Some (Inr (VRef 1), y_after)"
    using make_uncached [OF i, of "Suc 0" hidden_toString]
    by (simp add: store_def isShared_def y_after_def y_nested_def y_container_def singleton_def
          bind_def new_container_def)
  have later: "make (Suc 0) y_after (IString ''toString'') empty_record = Some (Inr (VRef 1), y_after)"
    by (simp add: make.simps y_after_def)
  show ?thesis using nested outer later by (simp add: y_nested_def y_after_def)
qed

end
